theory Spec2Isabelle
  imports Complex_Main "HOL-Library.Extended_Nat"
begin

section \<open>JavaScript strings\<close>

text \<open>
  A string is a list of 8-bit characters, read as the code units U+0000 to U+00FF.
  The white space of \<^verbatim>\<open>\s\<close> and of \<^verbatim>\<open>String.prototype.trim\<close> in that range is tab, line feed,
  vertical tab, form feed, carriage return, space and the no-break space.
\<close>

definition is_space :: "char \<Rightarrow> bool" where
  "is_space c = (c \<in> {CHR 0x09, CHR 0x0A, CHR 0x0B, CHR 0x0C, CHR 0x0D, CHR 0x20, CHR 0xA0})"

definition trim :: "string \<Rightarrow> string" where
  "trim s = rev (dropWhile is_space (rev (dropWhile is_space s)))"

text \<open>\<^verbatim>\<open>toLowerCase\<close> on the code units up to U+00FF: A-Z and the accented capitals.\<close>

definition lower_char :: "char \<Rightarrow> char" where
  "lower_char c =
     (let n = (of_char c :: nat)
      in if (65 \<le> n \<and> n \<le> 90) \<or> (192 \<le> n \<and> n \<le> 222 \<and> n \<noteq> 215)
         then char_of (n + 32) else c)"

definition toLowerCase :: "string \<Rightarrow> string" where
  "toLowerCase s = map lower_char s"

definition startsWith :: "string \<Rightarrow> string \<Rightarrow> bool" where
  "startsWith s p = (take (length p) s = p)"

text \<open>\<^verbatim>\<open>String.prototype.includes\<close>: \<open>w\<close> occurs somewhere in the string.\<close>

fun includes_str :: "string \<Rightarrow> string \<Rightarrow> bool" where
  "includes_str [] w = (w = [])"
| "includes_str (c # cs) w = (startsWith (c # cs) w \<or> includes_str cs w)"

section \<open>Regular-expression replacements of the content normalizer\<close>

text \<open>
  \<^verbatim>\<open>.replace(/\s+/g, ' ')\<close>: every maximal run of white space becomes one space.
\<close>

function collapse_whitespace :: "string \<Rightarrow> string" where
  "collapse_whitespace [] = []"
| "collapse_whitespace (c # cs) =
     (if is_space c then CHR '' '' # collapse_whitespace (dropWhile is_space cs)
      else c # collapse_whitespace cs)"
  by pat_completeness auto
termination
  by (relation "measure length") (auto simp: length_dropWhile_le less_Suc_eq_le)

text \<open>
  \<^verbatim>\<open>.replace(/<[^>]*>/g, ' ')\<close>: scanning from the left, a \<^verbatim>\<open><\<close> that has a \<^verbatim>\<open>>\<close> somewhere
  after it is replaced, up to and including the first such \<^verbatim>\<open>>\<close>, by one space; the scan
  goes on behind the match.
\<close>

function strip_tags :: "string \<Rightarrow> string" where
  "strip_tags [] = []"
| "strip_tags (c # cs) =
     (if c = CHR ''<'' \<and> CHR ''>'' \<in> set cs
      then CHR '' '' # strip_tags (tl (dropWhile (\<lambda>x. x \<noteq> CHR ''>'') cs))
      else c # strip_tags cs)"
  by pat_completeness auto
termination
proof (relation "measure length")
  show "wf (measure length)" by simp
next
  fix c :: char and cs :: string
  have "length (tl (dropWhile (\<lambda>x. x \<noteq> CHR ''>'') cs)) \<le> length cs"
    using length_dropWhile_le [of "\<lambda>x. x \<noteq> CHR ''>''" cs] by simp
  then show "(tl (dropWhile (\<lambda>x. x \<noteq> CHR ''>'') cs), c # cs) \<in> measure length"
    by simp
next
  fix c :: char and cs :: string
  show "(cs, c # cs) \<in> measure length" by simp
qed

text \<open>
  The three block patterns \<^verbatim>\<open>/<head>[\s\S]*?<\/head>/i\<close>, \<^verbatim>\<open>/<script[\s\S]*?<\/script>/gi\<close>
  and \<^verbatim>\<open>/<style[\s\S]*?<\/style>/gi\<close>: a literal opening, a lazy run of any characters,
  a literal closing, all ignoring case. Only the head pattern lacks the \<^verbatim>\<open>g\<close> flag.
\<close>

datatype block = HeadBlock | ScriptBlock | StyleBlock

fun block_open :: "block \<Rightarrow> string" where
  "block_open HeadBlock = ''<head>''"
| "block_open ScriptBlock = ''<script''"
| "block_open StyleBlock = ''<style''"

fun block_close :: "block \<Rightarrow> string" where
  "block_close HeadBlock = ''</head>''"
| "block_close ScriptBlock = ''</script>''"
| "block_close StyleBlock = ''</style>''"

fun block_global :: "block \<Rightarrow> bool" where
  "block_global HeadBlock = False"
| "block_global ScriptBlock = True"
| "block_global StyleBlock = True"

fun starts_ci :: "string \<Rightarrow> string \<Rightarrow> bool" where
  "starts_ci s [] = True"
| "starts_ci [] (p # ps) = False"
| "starts_ci (c # cs) (p # ps) = (lower_char c = lower_char p \<and> starts_ci cs ps)"

text \<open>The text behind the first occurrence of \<open>p\<close> in \<open>s\<close>, ignoring case.\<close>

fun after_ci :: "string \<Rightarrow> string \<Rightarrow> string option" where
  "after_ci [] p = (if p = [] then Some [] else None)"
| "after_ci (c # cs) p =
     (if starts_ci (c # cs) p then Some (drop (length p) (c # cs)) else after_ci cs p)"

lemma after_ci_length: "after_ci s p = Some r \<Longrightarrow> length r + length p \<le> length s"
proof (induction s)
  case Nil
  then show ?case by (simp split: if_splits)
next
  case (Cons c cs)
  have starts_len: "\<And>t q. starts_ci t q \<Longrightarrow> length q \<le> length t"
  proof -
    fix t q show "starts_ci t q \<Longrightarrow> length q \<le> length t"
      by (induction t q rule: starts_ci.induct) simp_all
  qed
  show ?case
  proof (cases "starts_ci (c # cs) p")
    case True
    then have "length p \<le> length (c # cs)" by (rule starts_len)
    moreover from True Cons.prems have "r = drop (length p) (c # cs)" by simp
    ultimately show ?thesis by simp
  next
    case False
    with Cons.prems have "after_ci cs p = Some r" by simp
    then have "length r + length p \<le> length cs" by (rule Cons.IH)
    then show ?thesis by simp
  qed
qed

function remove_blocks :: "block \<Rightarrow> string \<Rightarrow> string" where
  "remove_blocks b [] = []"
| "remove_blocks b (c # cs) =
     (if starts_ci (c # cs) (block_open b)
      then (case after_ci (drop (length (block_open b)) (c # cs)) (block_close b) of
              Some rest \<Rightarrow> (if block_global b then remove_blocks b rest else rest)
            | None \<Rightarrow> c # remove_blocks b cs)
      else c # remove_blocks b cs)"
  by pat_completeness auto
termination
proof (relation "measure (\<lambda>(b, s). length s)")
  show "wf (measure (\<lambda>(b, s). length s))" by simp
next
  fix b :: block and c :: char and cs rest :: string
  assume "after_ci (drop (length (block_open b)) (c # cs)) (block_close b) = Some rest"
  then have "length rest + length (block_close b)
      \<le> length (drop (length (block_open b)) (c # cs))"
    by (rule after_ci_length)
  moreover have "length (drop (length (block_open b)) (c # cs)) \<le> length (c # cs)"
    by simp
  moreover have "0 < length (block_close b)" by (cases b) simp_all
  ultimately have "length rest < length (c # cs)" by linarith
  then show "((b, rest), (b, c # cs)) \<in> measure (\<lambda>(b, s). length s)"
    by simp
next
  fix b :: block and c :: char and cs :: string
  show "((b, cs), (b, c # cs)) \<in> measure (\<lambda>(b, s). length s)" by simp
next
  fix b :: block and c :: char and cs :: string
  show "((b, cs), (b, c # cs)) \<in> measure (\<lambda>(b, s). length s)" by simp
qed

text \<open>
  \<^verbatim>\<open>.replace(/\n\s*\n/g, '\n\n')\<close>: a line feed, the longest run of white space behind it
  that still ends in a line feed, replaced by two line feeds.
\<close>

function squeeze_blank_lines :: "string \<Rightarrow> string" where
  "squeeze_blank_lines [] = []"
| "squeeze_blank_lines (c # cs) =
     (let run = takeWhile is_space cs
      in if c = CHR 0x0A \<and> CHR 0x0A \<in> set run
         then CHR 0x0A # CHR 0x0A #
              squeeze_blank_lines
                (drop (length (dropWhile (\<lambda>x. x \<noteq> CHR 0x0A) (rev run))) cs)
         else c # squeeze_blank_lines cs)"
  by pat_completeness auto
termination
  by (relation "measure length") auto

section \<open>Content normalizer of the simplified server\<close>

definition truncation_marker :: string where
  "truncation_marker = ''... (content truncated)''"

definition extractTextContent :: "string \<Rightarrow> string" where
  "extractTextContent html =
     (let text = trim (collapse_whitespace (strip_tags
                   (remove_blocks StyleBlock (remove_blocks ScriptBlock
                     (remove_blocks HeadBlock html)))))
      in if length text > 10000 then take 10000 text @ ''... (content truncated)''
         else text)"

section \<open>ContentExtractor\<close>

definition cleanText :: "string \<Rightarrow> string" where
  "cleanText text = trim (squeeze_blank_lines (collapse_whitespace text))"


text \<open>
  What the in-page scripts see of a rendered page: the elements a selector matches, in
  document order, the anchors matched by \<^verbatim>\<open>a[href]\<close>, the body, and \<^verbatim>\<open>Node.contains\<close> between
  an element and an anchor.
\<close>

record element =
  node_id :: nat
  textContent :: string

record anchor =
  anchor_id :: nat
  href :: string
  anchor_text :: string

record document =
  querySelectorAll :: "string \<Rightarrow> element list"
  anchors :: "anchor list"
  body :: "element option"
  contains :: "nat \<Rightarrow> nat \<Rightarrow> bool"

definition CONTENT_SELECTORS :: "string list" where
  "CONTENT_SELECTORS =
     [''.markdown-body'', ''.readme'', ''.documentation'', ''[role=\"main\"]'',
      ''main'', ''article'', ''.content'', ''#content'', ''.main-content'', ''#main-content'',
      ''.docs-content'', ''.docs-body'', ''.docs-markdown'', ''body'']"

definition informativeWords :: "string list" where
  "informativeWords =
     [''guide'', ''docs'', ''tutorial'', ''reference'', ''example'', ''api'', ''learn'', ''how to'']"

text \<open>The anchors both in-page scripts drop: no href, a fragment, a pseudo-protocol.\<close>

definition skipped_href :: "string \<Rightarrow> bool" where
  "skipped_href h =
     (h = [] \<or> startsWith h ''#'' \<or> startsWith h ''javascript:'' \<or>
      startsWith h ''mailto:'' \<or> startsWith h ''tel:'')"

record scored_link =
  sl_url :: string
  sl_text :: string
  relevance :: rat

record ExtractedContent =
  mainContent :: string
  relatedLinks :: "scored_link list"

text \<open>
  The selector loop of \<^verbatim>\<open>extractContent\<close>: of the elements a selector matches the first
  longest one is kept; the loop stops at a selector whose element has more than 200
  characters of trimmed text, and otherwise goes on, overwriting the element.
\<close>

fun select_main :: "(string \<Rightarrow> element list) \<Rightarrow> string list \<Rightarrow> element option \<Rightarrow> element option" where
  "select_main q [] mainElement = mainElement"
| "select_main q (selector # selectors) mainElement =
     (case q selector of
        [] \<Rightarrow> select_main q selectors mainElement
      | e # es \<Rightarrow>
          (let m = foldl (\<lambda>longest current.
                     if length (textContent current) > length (textContent longest)
                     then current else longest) e (e # es)
           in if length (trim (textContent m)) > 200 then Some m
              else select_main q selectors (Some m)))"

text \<open>
  The relevance of one anchor, accumulated as the script does. Scores are rationals; the
  script computes them in double precision.
\<close>

definition link_relevance :: "document \<Rightarrow> element option \<Rightarrow> anchor \<Rightarrow> rat" where
  "link_relevance doc mainElement link =
     (let text = anchor_text link;
          r1 = 0 + min (of_nat (length text) / 10) 5;
          r2 = (case mainElement of
                  Some m \<Rightarrow> if contains doc (node_id m) (anchor_id link) then r1 + 5 else r1
                | None \<Rightarrow> r1)
      in foldl (\<lambda>r word. if includes_str (toLowerCase text) word then r + 2 else r)
           r2 informativeWords)"

definition main_element :: "document \<Rightarrow> element option" where
  "main_element doc =
     (case select_main (querySelectorAll doc) CONTENT_SELECTORS None of
        Some m \<Rightarrow> Some m
      | None \<Rightarrow> body doc)"

definition extractContent :: "document \<Rightarrow> ExtractedContent" where
  "extractContent doc =
     (let mainElement = main_element doc
      in \<lparr> mainContent = (case mainElement of Some m \<Rightarrow> cleanText (textContent m) | None \<Rightarrow> []),
           relatedLinks =
             List.map_filter
               (\<lambda>link. if skipped_href (href link) then None
                  else Some \<lparr> sl_url = href link, sl_text = trim (anchor_text link),
                              relevance = link_relevance doc mainElement link \<rparr>)
               (anchors doc) \<rparr>)"

definition hasContent :: "document \<Rightarrow> bool" where
  "hasContent doc =
     (case body doc of Some b \<Rightarrow> length (trim (textContent b)) > 100 | None \<Rightarrow> False)"


section \<open>The environment\<close>

text \<open>
  A thrown value: an \<^verbatim>\<open>Error\<close> object with its message, a string, or anything else with
  its \<^verbatim>\<open>String(...)\<close> rendering.
\<close>

datatype js_error = ErrorObject string | StringValue string | OtherValue string

fun error_message :: "js_error \<Rightarrow> string" where
  "error_message (ErrorObject m) = m"
| "error_message (StringValue s) = s"
| "error_message (OtherValue r) = r"

datatype response_data = TextBody string | OtherBody

datatype axios_outcome = AxiosThrows js_error | AxiosResponse nat response_data

record axios_config =
  timeout :: nat
  user_agent :: string

datatype render_outcome = LaunchFails js_error | PageFails js_error | Rendered document

datatype browse_outcome = BrowseThrows js_error | NoResponse | Response nat document

text \<open>
  Everything outside the repository that a request depends on. The network and the
  browser of the simplified server answer by the number of requests issued before, so
  the same URL may be answered differently when asked again. \<open>linkRegex_matches\<close> gives
  the capture groups 1 and 2 of the successive matches of \<^verbatim>\<open>linkRegex\<close> in a page;
  \<open>url_resolve href base\<close> is \<^verbatim>\<open>new URL(href, base).href\<close> and \<open>url_hostname u\<close> is
  \<^verbatim>\<open>new URL(u).hostname\<close>, \<open>None\<close> where the constructor throws; \<open>url_title\<close> is the title
  the recursive walker derives from the last path segment; \<open>browse\<close> is the browser session
  of \<^verbatim>\<open>fetchSinglePage\<close> up to the response, retries included.
\<close>

record world =
  axios_get :: "nat \<Rightarrow> string \<Rightarrow> axios_config \<Rightarrow> axios_outcome"
  linkRegex_matches :: "string \<Rightarrow> (string \<times> string) list"
  url_resolve :: "string \<Rightarrow> string \<Rightarrow> string option"
  url_hostname :: "string \<Rightarrow> string option"
  render :: "nat \<Rightarrow> string \<Rightarrow> render_outcome"
  browser_close :: "nat \<Rightarrow> js_error option"
  browse :: "string \<Rightarrow> browse_outcome"
  url_title :: "string \<Rightarrow> string"

section \<open>Results and request state\<close>

record link =
  link_url :: string
  link_text :: string

record page =
  page_url :: string
  page_title :: "string option"
  page_content :: string
  page_links :: "link list"

record exploration_result =
  rootUrl :: string
  explorationDepth :: int
  pagesExplored :: nat
  content :: "page list"
  error :: "string option"

datatype tool_response = ToolResult exploration_result | ToolError string

datatype request =
    AxiosGet string axios_config
  | PuppeteerFetch string
  | FetchSinglePage string

text \<open>
  \<open>visitedUrls\<close> is the \<^verbatim>\<open>Set<string>\<close> of the server, kept in insertion order without
  duplicates. \<open>requests\<close> is not in the source: it records every request issued, with the
  visited set at that moment.
\<close>

record fetch_state =
  visitedUrls :: "string list"
  requests :: "(request \<times> string list) list"

definition set_add :: "string \<Rightarrow> string list \<Rightarrow> string list" where
  "set_add u xs = (if u \<in> set xs then xs else xs @ [u])"

definition cleared :: fetch_state where
  "cleared = \<lparr> visitedUrls = [], requests = [] \<rparr>"

definition visit :: "string \<Rightarrow> fetch_state \<Rightarrow> fetch_state" where
  "visit u st = st \<lparr> visitedUrls := set_add u (visitedUrls st) \<rparr>"

definition issue :: "request \<Rightarrow> fetch_state \<Rightarrow> fetch_state" where
  "issue r st = st \<lparr> requests := requests st @ [(r, visitedUrls st)] \<rparr>"

section \<open>The simplified server\<close>

definition userAgent :: string where
  "userAgent = ''Mozilla/5.0 (Windows NT 10.0; Win64; x64) AppleWebKit/537.36 (KHTML, like Gecko) Chrome/91.0.4472.124 Safari/537.36''"

text \<open>
  The test both axios callers make on a response:
  \<^verbatim>\<open>response.status === 200 && response.data && typeof response.data === 'string'\<close>.
\<close>

fun accepted_body :: "axios_outcome \<Rightarrow> string option" where
  "accepted_body (AxiosResponse status (TextBody s)) =
     (if status = 200 \<and> s \<noteq> [] then Some s else None)"
| "accepted_body (AxiosResponse status OtherBody) = None"
| "accepted_body (AxiosThrows e) = None"

definition fetchSimpleContent :: "world \<Rightarrow> string \<Rightarrow> fetch_state \<Rightarrow> string option \<times> fetch_state" where
  "fetchSimpleContent w url st =
     (let config = \<lparr> timeout = 5000, user_agent = userAgent \<rparr>
      in (map_option extractTextContent
            (accepted_body (axios_get w (length (requests st)) url config)),
          issue (AxiosGet url config) st))"

definition same_hostname :: "world \<Rightarrow> string \<Rightarrow> string \<Rightarrow> bool" where
  "same_hostname w u v =
     (case url_hostname w u of
        None \<Rightarrow> False
      | Some a \<Rightarrow> (case url_hostname w v of None \<Rightarrow> False | Some b \<Rightarrow> a = b))"

definition extractLinks :: "world \<Rightarrow> string \<Rightarrow> string \<Rightarrow> link list" where
  "extractLinks w html baseUrl =
     List.map_filter
       (\<lambda>(g1, g2).
          let href = trim g1; text = trim g2
          in if skipped_href href then None
             else (case url_resolve w href baseUrl of
                     None \<Rightarrow> None
                   | Some fullUrl \<Rightarrow>
                       if same_hostname w fullUrl baseUrl
                       then Some \<lparr> link_url = fullUrl,
                                   link_text = (if text = [] then fullUrl else text) \<rparr>
                       else None))
       (linkRegex_matches w html)"

text \<open>
  The loop over the first child links, written twice in the source (in \<^verbatim>\<open>fetchContent\<close>
  over at most 5 links, in \<^verbatim>\<open>fetchWithPuppeteer\<close> over at most 3) with the same body.
\<close>

fun explore_children :: "world \<Rightarrow> link list \<Rightarrow> page list \<Rightarrow> fetch_state \<Rightarrow> page list \<times> fetch_state" where
  "explore_children w [] childResults st = (childResults, st)"
| "explore_children w (l # ls) childResults st =
     (if link_url l \<notin> set (visitedUrls st)
      then (case fetchSimpleContent w (link_url l) st of
              (Some childContent, st') \<Rightarrow>
                if childContent \<noteq> []
                then explore_children w ls
                       (childResults @ [\<lparr> page_url = link_url l, page_title = None,
                                           page_content = childContent, page_links = [] \<rparr>])
                       (visit (link_url l) st')
                else explore_children w ls childResults st'
            | (None, st') \<Rightarrow> explore_children w ls childResults st')
      else explore_children w ls childResults st)"

text \<open>The function \<^verbatim>\<open>fetchWithPuppeteer\<close> evaluates in the page.\<close>

fun first_match :: "(string \<Rightarrow> element list) \<Rightarrow> string list \<Rightarrow> element option" where
  "first_match q [] = None"
| "first_match q (selector # selectors) =
     (case q selector of [] \<Rightarrow> first_match q selectors | e # es \<Rightarrow> Some e)"

definition page_script :: "document \<Rightarrow> string \<times> link list" where
  "page_script doc =
     (let mainElement =
            (case first_match (querySelectorAll doc) CONTENT_SELECTORS of
               Some m \<Rightarrow> Some m
             | None \<Rightarrow> body doc);
          mainContent = (case mainElement of Some m \<Rightarrow> textContent m | None \<Rightarrow> [])
      in (trim mainContent,
          List.map_filter
            (\<lambda>a. if skipped_href (href a) then None
               else Some \<lparr> link_url = href a,
                           link_text = (if trim (anchor_text a) = [] then href a
                                        else trim (anchor_text a)) \<rparr>)
            (anchors doc)))"

definition rendered_result :: "world \<Rightarrow> string \<Rightarrow> int \<Rightarrow> document \<Rightarrow> fetch_state \<Rightarrow> (js_error + exploration_result) \<times> fetch_state" where
  "rendered_result w url maxDepth doc st =
     (let mainContent = trim (collapse_whitespace (fst (page_script doc)));
          truncatedContent =
            (if length mainContent > 10000
             then take 10000 mainContent @ ''... (content truncated)'' else mainContent);
          links =
            filter (\<lambda>l. same_hostname w (link_url l) url)
              (List.map_filter
                 (\<lambda>l. case url_resolve w (link_url l) url of
                         None \<Rightarrow> None
                       | Some fullUrl \<Rightarrow> Some \<lparr> link_url = fullUrl, link_text = link_text l \<rparr>)
                 (snd (page_script doc)));
          root = \<lparr> page_url = url, page_title = None, page_content = truncatedContent,
                   page_links = take 10 links \<rparr>
      in if maxDepth \<le> 1 \<or> links = []
         then (Inr \<lparr> rootUrl = url, explorationDepth = maxDepth, pagesExplored = 1,
                     content = [root], error = None \<rparr>, st)
         else (case explore_children w (take (min 3 (length links)) links) [] st of
                 (childResults, st') \<Rightarrow>
                   (Inr \<lparr> rootUrl = url, explorationDepth = maxDepth,
                          pagesExplored = 1 + length childResults,
                          content = root # childResults, error = None \<rparr>, st')))"

text \<open>
  \<^verbatim>\<open>finally { if (browser) await browser.close(); }\<close>: a throwing close replaces the
  outcome of the body.
\<close>

definition finally_close :: "world \<Rightarrow> nat \<Rightarrow> (js_error + exploration_result) \<times> fetch_state \<Rightarrow> (js_error + exploration_result) \<times> fetch_state" where
  "finally_close w n outcome =
     (case browser_close w n of None \<Rightarrow> outcome | Some e \<Rightarrow> (Inl e, snd outcome))"

definition fetchWithPuppeteer :: "world \<Rightarrow> string \<Rightarrow> int \<Rightarrow> fetch_state \<Rightarrow> (js_error + exploration_result) \<times> fetch_state" where
  "fetchWithPuppeteer w url maxDepth st =
     (let n = length (requests st); st1 = issue (PuppeteerFetch url) st
      in case render w n url of
           LaunchFails e \<Rightarrow> (Inl e, st1)
         | PageFails e \<Rightarrow> finally_close w n (Inl e, st1)
         | Rendered doc \<Rightarrow> finally_close w n (rendered_result w url maxDepth doc st1))"

definition fetchContent :: "world \<Rightarrow> string \<Rightarrow> int \<Rightarrow> fetch_state \<Rightarrow> (js_error + exploration_result) \<times> fetch_state" where
  "fetchContent w url maxDepth st0 =
     (let st1 = visit url st0;
          config = \<lparr> timeout = 10000, user_agent = userAgent \<rparr>;
          st2 = issue (AxiosGet url config) st1
      in case accepted_body (axios_get w (length (requests st1)) url config) of
           Some data \<Rightarrow>
             (let mainContent = extractTextContent data;
                  links = extractLinks w data url;
                  root = \<lparr> page_url = url, page_title = None, page_content = mainContent,
                           page_links = take 10 links \<rparr>
              in if maxDepth \<le> 1
                 then (Inr \<lparr> rootUrl = url, explorationDepth = maxDepth, pagesExplored = 1,
                             content = [root], error = None \<rparr>, st2)
                 else (case explore_children w (take (min 5 (length links)) links) [] st2 of
                         (childResults, st3) \<Rightarrow>
                           (Inr \<lparr> rootUrl = url, explorationDepth = maxDepth,
                                  pagesExplored = 1 + length childResults,
                                  content = root # childResults, error = None \<rparr>, st3)))
         | None \<Rightarrow>
             (case fetchWithPuppeteer w url maxDepth st2 of
                (Inr result, st3) \<Rightarrow> (Inr result, st3)
              | (Inl e, st3) \<Rightarrow>
                  if length (visitedUrls st3) > 0
                  then (Inr \<lparr> rootUrl = url, explorationDepth = maxDepth,
                              pagesExplored = length (visitedUrls st3),
                              content = [], error = Some (error_message e) \<rparr>, st3)
                  else (Inl e, st3)))"

text \<open>
  The request handler races \<^verbatim>\<open>fetchContent\<close> against a 45 second timer. Which of the two
  settles first is the environment's choice, and the handler's input here.
\<close>

datatype race = FetchSettlesFirst | TimerFiresFirst

fun handler_message :: "js_error \<Rightarrow> string" where
  "handler_message (ErrorObject m) = m"
| "handler_message (StringValue s) = s"
| "handler_message (OtherValue r) = ''Unknown error occurred''"

definition callTool_simplified :: "world \<Rightarrow> race \<Rightarrow> string \<Rightarrow> int \<Rightarrow> tool_response" where
  "callTool_simplified w first url depth =
     (case first of
        TimerFiresFirst \<Rightarrow>
          ToolError (''Error fetching content: '' @ ''Operation timed out before completion'')
      | FetchSettlesFirst \<Rightarrow>
          (case fst (fetchContent w url depth cleared) of
             Inr result \<Rightarrow> ToolResult result
           | Inl e \<Rightarrow> ToolError (''Error fetching content: '' @ handler_message e)))"


section \<open>The deadline\<close>









section \<open>The recursive walker\<close>

text \<open>
  The failures of \<^verbatim>\<open>fetchSinglePage\<close>, each an \<^verbatim>\<open>McpError\<close> in the source: an invalid URL,
  a browser or navigation error rethrown with its message, no response, a status other
  than 200, a page that appears to be empty, and an extraction without content.
\<close>

datatype fetch_error =
    InvalidUrl
  | FetchFailed string
  | NoResponseReceived
  | HttpStatus nat
  | EmptyPage
  | ExtractFailed

definition isValidUrl :: "world \<Rightarrow> string \<Rightarrow> bool" where
  "isValidUrl w url = (url_hostname w url \<noteq> None)"

definition fetchSinglePage :: "world \<Rightarrow> string \<Rightarrow> fetch_error + ExtractedContent" where
  "fetchSinglePage w url =
     (if \<not> isValidUrl w url then Inl InvalidUrl
      else (case browse w url of
              BrowseThrows e \<Rightarrow> Inl (FetchFailed (error_message e))
            | NoResponse \<Rightarrow> Inl NoResponseReceived
            | Response status doc \<Rightarrow>
                if status \<noteq> 200 then Inl (HttpStatus status)
                else if \<not> hasContent doc then Inl EmptyPage
                else (let extracted = extractContent doc
                      in if mainContent extracted = [] \<or>
                            length (trim (mainContent extracted)) = 0
                         then Inl ExtractFailed else Inr extracted)))"

definition navigation_labels :: "string list" where
  "navigation_labels =
     [''home'', ''contact'', ''about'', ''login'', ''sign up'', ''register'', ''search'',
      ''privacy'', ''terms'', ''cookies'']"

text \<open>
  The links of a page as the walker keeps them: navigation labels dropped, sorted by
  descending relevance (\<^verbatim>\<open>Array.prototype.sort\<close> is stable), the first 10, without the score.
\<close>

definition sortedLinks_of :: "scored_link list \<Rightarrow> link list" where
  "sortedLinks_of related =
     map (\<lambda>l. \<lparr> link_url = sl_url l, link_text = sl_text l \<rparr>)
       (take 10
          (sort_key (\<lambda>l. - relevance l)
             (filter (\<lambda>l. toLowerCase (sl_text l) \<notin> set navigation_labels) related)))"

definition resolveUrl :: "world \<Rightarrow> string \<Rightarrow> string \<Rightarrow> string option" where
  "resolveUrl w h base =
     (if startsWith h ''http://'' \<or> startsWith h ''https://'' then Some h
      else if startsWith h ''javascript:'' \<or> startsWith h ''mailto:'' \<or>
              startsWith h ''tel:'' \<or> startsWith h ''#'' then None
      else url_resolve w h base)"

definition isSameDomain :: "world \<Rightarrow> string \<Rightarrow> string \<Rightarrow> bool" where
  "isSameDomain w url1 url2 = same_hostname w url1 url2"

text \<open>
  The entry of \<^verbatim>\<open>fetchDocContentRecursive\<close>, which runs within the call, before the first
  \<^verbatim>\<open>await\<close>: past the depth limit or on a visited URL the call returns the empty list
  (\<open>None\<close>), otherwise the URL is inserted into the visited set.
\<close>

definition enter :: "int \<Rightarrow> int \<Rightarrow> string \<Rightarrow> fetch_state \<Rightarrow> fetch_state option" where
  "enter maxDepth currentDepth url st =
     (if currentDepth \<ge> maxDepth \<or> url \<in> set (visitedUrls st) then None
      else Some (visit url st))"

text \<open>
  \<open>explore\<close> is the rest of \<^verbatim>\<open>fetchDocContentRecursive\<close> behind its entry, \<open>walk_links\<close> the
  loop over the sorted links with the calls collected in \<open>pending\<close> (a call that
  returned at its entry is \<open>None\<close>), and \<open>run_group\<close> one \<^verbatim>\<open>await Promise.all(pendingFetches)\<close>.
  The entries of a group run when the calls are made, in link order. The branches of a
  group then run concurrently in the source; \<open>run_group\<close> runs them one after the other
  in the order of the calls, which is one of the schedules the source admits, and the
  order in which \<^verbatim>\<open>Promise.all\<close> delivers their results.
\<close>

function explore :: "world \<Rightarrow> int \<Rightarrow> int \<Rightarrow> string \<Rightarrow> fetch_state \<Rightarrow> page list \<times> fetch_state"
  and walk_links :: "world \<Rightarrow> int \<Rightarrow> int \<Rightarrow> string \<Rightarrow> link list \<Rightarrow> string option list \<Rightarrow> fetch_state \<Rightarrow> page list \<times> fetch_state"
  and run_group :: "world \<Rightarrow> int \<Rightarrow> int \<Rightarrow> string option list \<Rightarrow> fetch_state \<Rightarrow> page list \<times> fetch_state"
where
  "explore w maxDepth currentDepth url st =
     (case fetchSinglePage w url of
        Inl e \<Rightarrow> ([], issue (FetchSinglePage url) st)
      | Inr extracted \<Rightarrow>
          (let sortedLinks = sortedLinks_of (relatedLinks extracted);
               result = \<lparr> page_url = url, page_title = Some (url_title w url),
                          page_content = mainContent extracted, page_links = sortedLinks \<rparr>
           in if currentDepth < maxDepth - 1
              then (case walk_links w maxDepth currentDepth url sortedLinks []
                           (issue (FetchSinglePage url) st) of
                      (results, st') \<Rightarrow> (result # results, st'))
              else ([result], issue (FetchSinglePage url) st)))"
| "walk_links w maxDepth currentDepth url [] pending st =
     run_group w maxDepth (currentDepth + 1) pending st"
| "walk_links w maxDepth currentDepth url (l # ls) pending st =
     (case resolveUrl w (link_url l) url of
        None \<Rightarrow> walk_links w maxDepth currentDepth url ls pending st
      | Some fullUrl \<Rightarrow>
          if isSameDomain w fullUrl url \<and> fullUrl \<notin> set (visitedUrls st)
          then (case enter maxDepth (currentDepth + 1) fullUrl st of
                  None \<Rightarrow>
                    if length (pending @ [None]) \<ge> 3
                    then (case run_group w maxDepth (currentDepth + 1) (pending @ [None]) st of
                            (results, st') \<Rightarrow>
                              (case walk_links w maxDepth currentDepth url ls [] st' of
                                 (others, st'') \<Rightarrow> (results @ others, st'')))
                    else walk_links w maxDepth currentDepth url ls (pending @ [None]) st
                | Some st1 \<Rightarrow>
                    if length (pending @ [Some fullUrl]) \<ge> 3
                    then (case run_group w maxDepth (currentDepth + 1)
                                 (pending @ [Some fullUrl]) st1 of
                            (results, st') \<Rightarrow>
                              (case walk_links w maxDepth currentDepth url ls [] st' of
                                 (others, st'') \<Rightarrow> (results @ others, st'')))
                    else walk_links w maxDepth currentDepth url ls (pending @ [Some fullUrl]) st1)
          else walk_links w maxDepth currentDepth url ls pending st)"
| "run_group w maxDepth depth [] st = ([], st)"
| "run_group w maxDepth depth (None # ps) st = run_group w maxDepth depth ps st"
| "run_group w maxDepth depth (Some u # ps) st =
     (case explore w maxDepth depth u st of
        (results, st') \<Rightarrow>
          (case run_group w maxDepth depth ps st' of
             (others, st'') \<Rightarrow> (results @ others, st'')))"
  by pat_completeness auto
termination
  by (relation "measures
        [\<lambda>x. case x of
                Inl (w, m, d, u, st) \<Rightarrow> 3 * nat (m - d)
              | Inr (Inl (w, m, d, u, ls, pending, st)) \<Rightarrow> 3 * nat (m - (d + 1)) + 2
              | Inr (Inr (w, m, d, ps, st)) \<Rightarrow> 3 * nat (m - d) + 1,
         \<lambda>x. case x of
                Inl (w, m, d, u, st) \<Rightarrow> 0
              | Inr (Inl (w, m, d, u, ls, pending, st)) \<Rightarrow> length ls
              | Inr (Inr (w, m, d, ps, st)) \<Rightarrow> length ps]")
     auto

definition fetchDocContentRecursive :: "world \<Rightarrow> string \<Rightarrow> int \<Rightarrow> int \<Rightarrow> fetch_state \<Rightarrow> page list \<times> fetch_state" where
  "fetchDocContentRecursive w url maxDepth currentDepth st =
     (case enter maxDepth currentDepth url st of
        None \<Rightarrow> ([], st)
      | Some st1 \<Rightarrow> explore w maxDepth currentDepth url st1)"

text \<open>
  A call of \<^verbatim>\<open>fetchDocContentRecursive\<close> at depth \<open>fst c\<close> for the URL \<open>snd c\<close>, up to its first
  suspension: the entry and, behind it, the start of the page fetch. Whatever the order
  in which concurrent branches get to run, a request is a sequence of such steps.
\<close>

definition begin_call :: "int \<Rightarrow> int \<times> string \<Rightarrow> fetch_state \<Rightarrow> fetch_state" where
  "begin_call maxDepth c st =
     (case enter maxDepth (fst c) (snd c) st of
        None \<Rightarrow> st
      | Some st1 \<Rightarrow> issue (FetchSinglePage (snd c)) st1)"

text \<open>
  The request handler of the recursive server. \<^verbatim>\<open>fetchDocContentRecursive\<close> catches every
  exception of its body, so the handler's own \<^verbatim>\<open>catch\<close> is never entered.
\<close>

definition callTool_recursive :: "world \<Rightarrow> string \<Rightarrow> int \<Rightarrow> tool_response" where
  "callTool_recursive w url depth =
     (case fetchDocContentRecursive w url depth 0 cleared of
        (result, st) \<Rightarrow>
          ToolResult \<lparr> rootUrl = url, explorationDepth = depth,
                       pagesExplored = length result, content = result, error = None \<rparr>)"


section \<open>Normal forms of cleaned text\<close>

text \<open>
  The vocabulary of the proofs about the normalizer: the text before truncation and the
  truncation step of \<open>extractTextContent\<close>, and three properties of a cleaned text.
  \<open>tagfree\<close>: no \<^verbatim>\<open><\<close> has a \<^verbatim>\<open>>\<close> behind it. \<open>spaced\<close>: all white space is single spaces.
  \<open>trimmed\<close>: no white space at either end.
\<close>

definition clean_html :: "string \<Rightarrow> string" where
  "clean_html html =
     trim (collapse_whitespace (strip_tags
       (remove_blocks StyleBlock (remove_blocks ScriptBlock (remove_blocks HeadBlock html)))))"

definition truncate_text :: "string \<Rightarrow> string" where
  "truncate_text t =
     (if length t > 10000 then take 10000 t @ ''... (content truncated)'' else t)"

fun tagfree :: "string \<Rightarrow> bool" where
  "tagfree [] = True"
| "tagfree (c # cs) = ((c \<noteq> CHR ''<'' \<or> CHR ''>'' \<notin> set cs) \<and> tagfree cs)"

fun spaced :: "string \<Rightarrow> bool" where
  "spaced [] = True"
| "spaced [c] = (\<not> is_space c \<or> c = CHR '' '')"
| "spaced (c # d # cs) =
     ((\<not> is_space c \<or> (c = CHR '' '' \<and> \<not> is_space d)) \<and> spaced (d # cs))"

definition trimmed :: "string \<Rightarrow> bool" where
  "trimmed s = (s = [] \<or> (\<not> is_space (hd s) \<and> \<not> is_space (last s)))"

section \<open>Vocabulary of the statements\<close>

text \<open>
  A child entry of a result: no links, no title, non-empty content obtained by the simple
  fetcher from an accepted response for one of the links \<open>ls\<close>.
\<close>

definition child_of :: "world \<Rightarrow> link list \<Rightarrow> page \<Rightarrow> bool" where
  "child_of w ls p =
     (page_links p = [] \<and> page_title p = None \<and> page_content p \<noteq> [] \<and>
      (\<exists>l \<in> set ls. page_url p = link_url l) \<and>
      (\<exists>n s. accepted_body (axios_get w n (page_url p)
                \<lparr> timeout = 5000, user_agent = userAgent \<rparr>) = Some s \<and>
             page_content p = extractTextContent s))"

text \<open>The two shapes of a result of the simplified server: with and without an error.\<close>

definition ok_result :: "world \<Rightarrow> string \<Rightarrow> int \<Rightarrow> exploration_result \<Rightarrow> bool" where
  "ok_result w url d r =
     (rootUrl r = url \<and> explorationDepth r = d \<and> error r = None \<and>
      (\<exists>root children ls.
         content r = root # children \<and> pagesExplored r = 1 + length children \<and>
         page_url root = url \<and> page_title root = None \<and>
         (\<exists>t. page_content root = truncate_text t) \<and>
         (\<forall>p \<in> set children. child_of w ls p)))"

definition failed_result :: "string \<Rightarrow> int \<Rightarrow> fetch_state \<Rightarrow> exploration_result \<Rightarrow> bool" where
  "failed_result url d st' r =
     (rootUrl r = url \<and> explorationDepth r = d \<and> error r \<noteq> None \<and> content r = [] \<and>
      pagesExplored r = length (visitedUrls st') \<and> 0 < pagesExplored r)"

text \<open>A logged request of the child loop: for a URL outside the visited set of that moment.\<close>

definition child_request :: "request \<times> string list \<Rightarrow> bool" where
  "child_request e =
     (\<exists>u. fst e = AxiosGet u \<lparr> timeout = 5000, user_agent = userAgent \<rparr> \<and> u \<notin> set (snd e))"

text \<open>A logged request for the root: made with the root URL already in the visited set.\<close>

definition root_request :: "string \<Rightarrow> request \<times> string list \<Rightarrow> bool" where
  "root_request url e =
     ((fst e = AxiosGet url \<lparr> timeout = 10000, user_agent = userAgent \<rparr> \<or>
       fst e = PuppeteerFetch url) \<and> url \<in> set (snd e))"

text \<open>The same-domain links of a rendered page, as \<open>rendered_result\<close> computes them.\<close>

definition rendered_links :: "world \<Rightarrow> string \<Rightarrow> document \<Rightarrow> link list" where
  "rendered_links w url doc =
     filter (\<lambda>l. same_hostname w (link_url l) url)
       (List.map_filter
          (\<lambda>l. case url_resolve w (link_url l) url of
                  None \<Rightarrow> None
                | Some fullUrl \<Rightarrow> Some \<lparr> link_url = fullUrl, link_text = link_text l \<rparr>)
          (snd (page_script doc)))"

text \<open>The anchor lies in the element \<open>extractContent\<close> selected as main content.\<close>

definition in_main :: "document \<Rightarrow> anchor \<Rightarrow> bool" where
  "in_main doc link =
     (case main_element doc of
        Some m \<Rightarrow> contains doc (node_id m) (anchor_id link)
      | None \<Rightarrow> False)"



text \<open>
  The URLs of the page fetches in a request log, the URLs of the calls of a group that
  got past their entry, and the invariant of the walker between two states: the pages
  fetched in between are pairwise distinct, each is one of \<open>S\<close> or was inserted into the
  visited set in between, and the pages returned are distinct ones of them.
\<close>

fun fetched_urls :: "(request \<times> string list) list \<Rightarrow> string list" where
  "fetched_urls [] = []"
| "fetched_urls ((FetchSinglePage u, v) # es) = u # fetched_urls es"
| "fetched_urls (e # es) = fetched_urls es"

fun entered :: "string option list \<Rightarrow> string list" where
  "entered [] = []"
| "entered (None # ps) = entered ps"
| "entered (Some u # ps) = u # entered ps"

definition step_ok :: "string set \<Rightarrow> fetch_state \<Rightarrow> fetch_state \<Rightarrow> page list \<Rightarrow> bool" where
  "step_ok S st st' res =
     (\<exists>new. fetched_urls (requests st') = fetched_urls (requests st) @ new \<and> distinct new \<and>
            set new \<subseteq> set (visitedUrls st') \<and>
            set new \<subseteq> S \<union> (set (visitedUrls st') - set (visitedUrls st)) \<and>
            set (visitedUrls st) \<subseteq> set (visitedUrls st') \<and>
            distinct (map page_url res) \<and> page_url ` set res \<subseteq> set new)"

text \<open>
  The relevance score as the specification words it, with a bonus of 2 for every
  occurrence of an informative word in the lower-cased link text.
\<close>

fun occurrences :: "string \<Rightarrow> string \<Rightarrow> nat" where
  "occurrences [] w = 0"
| "occurrences (c # cs) w = (if startsWith (c # cs) w then 1 else 0) + occurrences cs w"

definition claimed_relevance :: "bool \<Rightarrow> string \<Rightarrow> rat" where
  "claimed_relevance inside text =
     min (of_nat (length text) / 10) 5 + (if inside then 5 else 0) +
     2 * of_nat (sum_list (map (occurrences (toLowerCase text)) informativeWords))"

text \<open>
  The text of a rendered page as \<^verbatim>\<open>fetchWithPuppeteer\<close> cleans it, before truncation.
\<close>

definition rendered_text :: "document \<Rightarrow> string" where
  "rendered_text doc = trim (collapse_whitespace (fst (page_script doc)))"





text \<open>
  A failed child fetch in a request log: a request of the simple fetcher for the URL whose
  answer was not accepted or had no text. The children of a result come from the links
  \<open>ls\<close>: every entry behind the root is the page of one of them, and every one of them has
  its page in the result or a failed fetch in the log.
\<close>

definition fetch_failed :: "world \<Rightarrow> (request \<times> string list) list \<Rightarrow> string \<Rightarrow> bool" where
  "fetch_failed w trace u =
     list_ex
       (\<lambda>n. fst (trace ! n) = AxiosGet u \<lparr> timeout = 5000, user_agent = userAgent \<rparr> \<and>
            (case accepted_body (axios_get w n u \<lparr> timeout = 5000, user_agent = userAgent \<rparr>) of
               None \<Rightarrow> True
             | Some s \<Rightarrow> extractTextContent s = []))
       [0..<length trace]"

definition children_from :: "world \<Rightarrow> exploration_result \<Rightarrow> (request \<times> string list) list \<Rightarrow> link list \<Rightarrow> bool" where
  "children_from w r trace ls =
     (list_all (\<lambda>p. page_url p \<in> link_url ` set ls) (tl (content r)) \<and>
      list_all (\<lambda>l. link_url l \<in> page_url ` set (content r) \<or> fetch_failed w trace (link_url l)) ls \<and>
      length (tl (content r)) \<le> length ls)"

section \<open>Example sites\<close>

text \<open>
  A site whose root page links to five pages of its own; two of them time out. It has
  no browser.
\<close>

definition docs_site :: world where
  "docs_site = \<lparr>
     axios_get = (\<lambda>n url config.
        if url = ''http://docs.test/'' then AxiosResponse 200 (TextBody ''<h1>Docs</h1>'')
        else if url \<in> {''http://docs.test/a'', ''http://docs.test/c'', ''http://docs.test/e''}
        then AxiosResponse 200 (TextBody ''<p>Page</p>'')
        else AxiosThrows (ErrorObject ''timeout of 5000ms exceeded'')),
     linkRegex_matches = (\<lambda>html.
        if html = ''<h1>Docs</h1>''
        then [(''/a'', ''A''), (''/b'', ''B''), (''/c'', ''C''), (''/d'', ''D''), (''/e'', ''E'')]
        else []),
     url_resolve = (\<lambda>h base.
        if startsWith h ''http://'' then Some h else Some (''http://docs.test'' @ h)),
     url_hostname = (\<lambda>u.
        if startsWith u ''http://docs.test/'' then Some ''docs.test''
        else if startsWith u ''http://other.test/'' then Some ''other.test'' else None),
     render = (\<lambda>n url. LaunchFails (ErrorObject ''no browser'')),
     browser_close = (\<lambda>n. None),
     browse = (\<lambda>url. BrowseThrows (ErrorObject ''no browser'')),
     url_title = (\<lambda>url. []) \<rparr>"

definition docs_site_result :: exploration_result where
  "docs_site_result =
     \<lparr> rootUrl = ''http://docs.test/'', explorationDepth = 2, pagesExplored = 4,
       content =
         [\<lparr> page_url = ''http://docs.test/'', page_title = None, page_content = ''Docs'',
            page_links =
              [\<lparr> link_url = ''http://docs.test/a'', link_text = ''A'' \<rparr>,
               \<lparr> link_url = ''http://docs.test/b'', link_text = ''B'' \<rparr>,
               \<lparr> link_url = ''http://docs.test/c'', link_text = ''C'' \<rparr>,
               \<lparr> link_url = ''http://docs.test/d'', link_text = ''D'' \<rparr>,
               \<lparr> link_url = ''http://docs.test/e'', link_text = ''E'' \<rparr>] \<rparr>,
          \<lparr> page_url = ''http://docs.test/a'', page_title = None, page_content = ''Page'',
            page_links = [] \<rparr>,
          \<lparr> page_url = ''http://docs.test/c'', page_title = None, page_content = ''Page'',
            page_links = [] \<rparr>,
          \<lparr> page_url = ''http://docs.test/e'', page_title = None, page_content = ''Page'',
            page_links = [] \<rparr>],
       error = None \<rparr>"

text \<open>The same site with every request failing.\<close>

definition down_site :: world where
  "down_site = docs_site \<lparr>
     axios_get := (\<lambda>n url config. AxiosThrows (ErrorObject ''connect ECONNREFUSED'')) \<rparr>"

text \<open>
  The same site with a root page that needs the browser: the first two of its five links
  are the ones that time out.
\<close>

definition five_links_doc :: document where
  "five_links_doc = \<lparr>
     querySelectorAll = (\<lambda>selector.
        if selector = ''body'' then [\<lparr> node_id = 0, textContent = ''Docs'' \<rparr>] else []),
     anchors = [\<lparr> anchor_id = 1, href = ''/b'', anchor_text = ''B'' \<rparr>,
                \<lparr> anchor_id = 2, href = ''/d'', anchor_text = ''D'' \<rparr>,
                \<lparr> anchor_id = 3, href = ''/a'', anchor_text = ''A'' \<rparr>,
                \<lparr> anchor_id = 4, href = ''/c'', anchor_text = ''C'' \<rparr>,
                \<lparr> anchor_id = 5, href = ''/e'', anchor_text = ''E'' \<rparr>],
     body = Some \<lparr> node_id = 0, textContent = ''Docs'' \<rparr>,
     contains = (\<lambda>m a. m = 0) \<rparr>"

definition rendered_site :: world where
  "rendered_site = docs_site \<lparr>
     axios_get := (\<lambda>n url config.
        if url = ''http://docs.test/'' then AxiosResponse 200 OtherBody
        else axios_get docs_site n url config),
     render := (\<lambda>n url. Rendered five_links_doc) \<rparr>"

text \<open>The same site with a root page that links twice to a page that times out.\<close>

definition repeat_site :: world where
  "repeat_site = docs_site \<lparr>
     linkRegex_matches := (\<lambda>html. [(''/b'', ''B''), (''/b'', ''B again'')]) \<rparr>"


text \<open>The same site answering the root request with status 200 and an empty text.\<close>

definition empty_body_site :: world where
  "empty_body_site = docs_site \<lparr>
     axios_get := (\<lambda>n url config. AxiosResponse 200 (TextBody [])) \<rparr>"

text \<open>
  Rendered pages for the recursive walker: one whose body text has 10001 characters, and
  one with 150 characters of text and a single link to another host.
\<close>

definition big_doc :: document where
  "big_doc = \<lparr>
     querySelectorAll = (\<lambda>selector.
        if selector = ''body''
        then [\<lparr> node_id = 0, textContent = replicate 10001 CHR ''a'' \<rparr>] else []),
     anchors = [],
     body = Some \<lparr> node_id = 0, textContent = replicate 10001 CHR ''a'' \<rparr>,
     contains = (\<lambda>m a. m = 0) \<rparr>"

definition big_site :: world where
  "big_site = docs_site \<lparr> browse := (\<lambda>url. Response 200 big_doc) \<rparr>"

definition foreign_doc :: document where
  "foreign_doc = \<lparr>
     querySelectorAll = (\<lambda>selector.
        if selector = ''body''
        then [\<lparr> node_id = 0, textContent = replicate 150 CHR ''a'' \<rparr>] else []),
     anchors = [\<lparr> anchor_id = 1, href = ''http://other.test/x'', anchor_text = ''Other'' \<rparr>],
     body = Some \<lparr> node_id = 0, textContent = replicate 150 CHR ''a'' \<rparr>,
     contains = (\<lambda>m a. m = 0) \<rparr>"


text \<open>
  A site for the recursive walker: a page of 150 characters with the given links, the
  root linking to two pages, the first of which links back to the root and to the second,
  which cannot be loaded.
\<close>

definition links_doc :: "string list \<Rightarrow> document" where
  "links_doc hrefs = \<lparr>
     querySelectorAll = (\<lambda>selector.
        if selector = ''body''
        then [\<lparr> node_id = 0, textContent = replicate 150 CHR ''a'' \<rparr>] else []),
     anchors = map (\<lambda>h. \<lparr> anchor_id = 1, href = h, anchor_text = ''Topic'' \<rparr>) hrefs,
     body = Some \<lparr> node_id = 0, textContent = replicate 150 CHR ''a'' \<rparr>,
     contains = (\<lambda>m a. m = 0) \<rparr>"

definition walk_site :: world where
  "walk_site = docs_site \<lparr>
     browse := (\<lambda>url.
        if url = ''http://docs.test/'' then Response 200 (links_doc [''/a'', ''/b''])
        else if url = ''http://docs.test/a'' then Response 200 (links_doc [''/'', ''/b''])
        else BrowseThrows (ErrorObject ''net::ERR_CONNECTION_REFUSED'')) \<rparr>"

text \<open>
  Pages for the relevance score. Both have a \<^verbatim>\<open>main\<close> element of 300 characters and their
  links outside it, in the body: three links with texts of 5, 50 and 500 characters, and
  one link whose text has the same informative word twice.
\<close>

definition three_links_doc :: document where
  "three_links_doc = \<lparr>
     querySelectorAll = (\<lambda>selector.
        if selector = ''main'' then [\<lparr> node_id = 1, textContent = replicate 300 CHR ''m'' \<rparr>]
        else if selector = ''body''
        then [\<lparr> node_id = 0, textContent = replicate 300 CHR ''m'' \<rparr>] else []),
     anchors = [\<lparr> anchor_id = 2, href = ''/a'', anchor_text = replicate 5 CHR ''x'' \<rparr>,
                \<lparr> anchor_id = 3, href = ''/b'', anchor_text = replicate 50 CHR ''x'' \<rparr>,
                \<lparr> anchor_id = 4, href = ''/c'', anchor_text = replicate 500 CHR ''x'' \<rparr>],
     body = Some \<lparr> node_id = 0, textContent = replicate 300 CHR ''m'' \<rparr>,
     contains = (\<lambda>m a. m = 0) \<rparr>"

definition guide_doc :: document where
  "guide_doc = \<lparr>
     querySelectorAll = (\<lambda>selector.
        if selector = ''main'' then [\<lparr> node_id = 1, textContent = replicate 300 CHR ''m'' \<rparr>]
        else if selector = ''body''
        then [\<lparr> node_id = 0, textContent = replicate 300 CHR ''m'' \<rparr>] else []),
     anchors = [\<lparr> anchor_id = 2, href = ''/guide'', anchor_text = ''Guide guide'' \<rparr>],
     body = Some \<lparr> node_id = 0, textContent = replicate 300 CHR ''m'' \<rparr>,
     contains = (\<lambda>m a. m = 0) \<rparr>"

text \<open>
  A site whose pages all have 10001 characters of text, the root linking to one page; the
  same with a root page that needs the browser; the page of 10000 characters and the
  truncation marker that both return.
\<close>

definition long_site :: world where
  "long_site = docs_site \<lparr>
     axios_get := (\<lambda>n url config. AxiosResponse 200 (TextBody (replicate 10001 CHR ''a''))),
     linkRegex_matches := (\<lambda>html. [(''/a'', ''A'')]) \<rparr>"

definition long_rendered_site :: world where
  "long_rendered_site = down_site \<lparr> render := (\<lambda>n url. Rendered big_doc) \<rparr>"

definition long_page :: "string \<Rightarrow> link list \<Rightarrow> page" where
  "long_page u ls =
     \<lparr> page_url = u, page_title = None,
       page_content = replicate 10000 CHR ''a'' @ ''... (content truncated)'',
       page_links = ls \<rparr>"


text \<open>A site whose root page links to seven pages of its own, all of which load.\<close>

definition seven_links_site :: world where
  "seven_links_site = docs_site \<lparr>
     axios_get := (\<lambda>n url config.
        if url = ''http://docs.test/'' then AxiosResponse 200 (TextBody ''<h1>Docs</h1>'')
        else AxiosResponse 200 (TextBody ''<p>Page</p>'')),
     linkRegex_matches := (\<lambda>html.
        if html = ''<h1>Docs</h1>''
        then [(''/a'', ''A''), (''/b'', ''B''), (''/c'', ''C''), (''/d'', ''D''), (''/e'', ''E''),
              (''/f'', ''F''), (''/g'', ''G'')]
        else []) \<rparr>"

definition seven_links_result :: exploration_result where
  "seven_links_result =
     \<lparr> rootUrl = ''http://docs.test/'', explorationDepth = 2, pagesExplored = 6,
       content =
         [\<lparr> page_url = ''http://docs.test/'', page_title = None, page_content = ''Docs'',
            page_links =
              [\<lparr> link_url = ''http://docs.test/a'', link_text = ''A'' \<rparr>,
               \<lparr> link_url = ''http://docs.test/b'', link_text = ''B'' \<rparr>,
               \<lparr> link_url = ''http://docs.test/c'', link_text = ''C'' \<rparr>,
               \<lparr> link_url = ''http://docs.test/d'', link_text = ''D'' \<rparr>,
               \<lparr> link_url = ''http://docs.test/e'', link_text = ''E'' \<rparr>,
               \<lparr> link_url = ''http://docs.test/f'', link_text = ''F'' \<rparr>,
               \<lparr> link_url = ''http://docs.test/g'', link_text = ''G'' \<rparr>] \<rparr>,
          \<lparr> page_url = ''http://docs.test/a'', page_title = None, page_content = ''Page'',
            page_links = [] \<rparr>,
          \<lparr> page_url = ''http://docs.test/b'', page_title = None, page_content = ''Page'',
            page_links = [] \<rparr>,
          \<lparr> page_url = ''http://docs.test/c'', page_title = None, page_content = ''Page'',
            page_links = [] \<rparr>,
          \<lparr> page_url = ''http://docs.test/d'', page_title = None, page_content = ''Page'',
            page_links = [] \<rparr>,
          \<lparr> page_url = ''http://docs.test/e'', page_title = None, page_content = ''Page'',
            page_links = [] \<rparr>],
       error = None \<rparr>"






section \<open>Properties of the string functions\<close>

lemma lower_char_small:
  assumes "(of_char (lower_char c) :: nat) < 97"
  shows "lower_char c = c"
proof (rule ccontr)
  assume neq: "lower_char c \<noteq> c"
  define n where "n = (of_char c :: nat)"
  from neq have rng: "(65 \<le> n \<and> n \<le> 90) \<or> (192 \<le> n \<and> n \<le> 222 \<and> n \<noteq> 215)"
    and lc: "lower_char c = char_of (n + 32)"
    by (auto simp: lower_char_def Let_def n_def split: if_splits)
  have "(of_char (lower_char c) :: nat) = (n + 32) mod 256"
    unfolding lc by simp
  also from rng have "\<dots> = n + 32" by auto
  finally show False using assms rng by linarith
qed

lemma lower_char_lt: "lower_char c = CHR ''<'' \<Longrightarrow> c = CHR ''<''"
  using lower_char_small [of c] by simp

lemma lower_char_gt: "lower_char c = CHR ''>'' \<Longrightarrow> c = CHR ''>''"
  using lower_char_small [of c] by simp

lemma lower_lt: "lower_char CHR ''<'' = CHR ''<''" by (simp add: lower_char_def)
lemma lower_gt: "lower_char CHR ''>'' = CHR ''>''" by (simp add: lower_char_def)

lemma set_tl_subset: "set (tl ys) \<subseteq> set ys"
  by (cases ys) auto

lemma set_tl_dropWhile: "set (tl (dropWhile P cs)) \<subseteq> set cs"
proof -
  have "set (dropWhile P cs) \<subseteq> set cs" by (auto dest: set_dropWhileD)
  with set_tl_subset [of "dropWhile P cs"] show ?thesis by blast
qed

lemma set_strip_tags: "set (strip_tags s) \<subseteq> insert CHR '' '' (set s)"
proof (induction s rule: strip_tags.induct)
  case 1 show ?case by simp
next
  case (2 c cs)
  show ?case
  proof (cases "c = CHR ''<'' \<and> CHR ''>'' \<in> set cs")
    case True
    then have "strip_tags (c # cs) = CHR '' '' # strip_tags (tl (dropWhile (\<lambda>x. x \<noteq> CHR ''>'') cs))"
      by simp
    moreover note 2(1)[OF True] set_tl_dropWhile [of "\<lambda>x. x \<noteq> CHR ''>''" cs]
    ultimately show ?thesis by auto
  next
    case False
    then have "strip_tags (c # cs) = c # strip_tags cs" by auto
    with 2(2)[OF False] show ?thesis by auto
  qed
qed


lemma strip_tags_tagfree: "tagfree (strip_tags s)"
proof (induction s rule: strip_tags.induct)
  case 1 show ?case by simp
next
  case (2 c cs)
  show ?case
  proof (cases "c = CHR ''<'' \<and> CHR ''>'' \<in> set cs")
    case True
    then have "strip_tags (c # cs) = CHR '' '' # strip_tags (tl (dropWhile (\<lambda>x. x \<noteq> CHR ''>'') cs))"
      by simp
    with 2(1)[OF True] show ?thesis by simp
  next
    case False
    then have eq: "strip_tags (c # cs) = c # strip_tags cs" by auto
    from False have "c \<noteq> CHR ''<'' \<or> CHR ''>'' \<notin> set (strip_tags cs)"
      using set_strip_tags [of cs] by auto
    with 2(2)[OF False] show ?thesis unfolding eq by simp
  qed
qed

lemma strip_tags_id: "tagfree s \<Longrightarrow> strip_tags s = s"
proof (induction s)
  case Nil show ?case by simp
next
  case (Cons c cs)
  then have "\<not> (c = CHR ''<'' \<and> CHR ''>'' \<in> set cs)" and "strip_tags cs = cs" by auto
  then show ?case by simp
qed

lemma starts_ci_gt: "starts_ci s p \<Longrightarrow> CHR ''>'' \<in> set p \<Longrightarrow> CHR ''>'' \<in> set s"
proof (induction s p rule: starts_ci.induct)
  case (1 s) then show ?case by simp
next
  case (2 p ps) then show ?case by simp
next
  case (3 c cs p ps)
  show ?case
  proof (cases "p = CHR ''>''")
    case True
    with 3(2) have "lower_char c = CHR ''>''" by (simp add: lower_gt)
    then have "c = CHR ''>''" by (rule lower_char_gt)
    then show ?thesis by simp
  next
    case False
    with 3 show ?thesis by simp
  qed
qed

lemma after_ci_gt: "after_ci s p = Some r \<Longrightarrow> CHR ''>'' \<in> set p \<Longrightarrow> CHR ''>'' \<in> set s"
proof (induction s)
  case Nil then show ?case by (simp split: if_splits)
next
  case (Cons c cs)
  show ?case
  proof (cases "starts_ci (c # cs) p")
    case True
    then show ?thesis using Cons.prems(2) by (rule starts_ci_gt)
  next
    case False
    with Cons.prems have "after_ci cs p = Some r" by simp
    with Cons.IH Cons.prems(2) show ?thesis by simp
  qed
qed

lemma starts_ci_open: "starts_ci (c # cs) (block_open b) \<Longrightarrow> c = CHR ''<''"
proof -
  assume a: "starts_ci (c # cs) (block_open b)"
  obtain ps where "block_open b = CHR ''<'' # ps" by (cases b) simp_all
  with a have "lower_char c = CHR ''<''" by (simp add: lower_lt)
  then show ?thesis by (rule lower_char_lt)
qed

lemma remove_blocks_id: "tagfree s \<Longrightarrow> remove_blocks b s = s"
proof (induction s)
  case Nil show ?case by simp
next
  case (Cons c cs)
  then have IH: "remove_blocks b cs = cs" by simp
  show ?case
  proof (cases "starts_ci (c # cs) (block_open b)")
    case False
    with IH show ?thesis by simp
  next
    case True
    then have c: "c = CHR ''<''" by (rule starts_ci_open)
    with Cons.prems have nogt: "CHR ''>'' \<notin> set cs" by simp
    have "after_ci (drop (length (block_open b)) (c # cs)) (block_close b) = None"
    proof (cases "after_ci (drop (length (block_open b)) (c # cs)) (block_close b)")
      case None then show ?thesis .
    next
      case (Some r)
      moreover have "CHR ''>'' \<in> set (block_close b)" by (cases b) simp_all
      ultimately have "CHR ''>'' \<in> set (drop (length (block_open b)) (c # cs))"
        by (rule after_ci_gt)
      then have "CHR ''>'' \<in> set (c # cs)" by (rule in_set_dropD)
      with c nogt show ?thesis by simp
    qed
    with True IH show ?thesis by simp
  qed
qed


lemma spaced_Cons:
  "spaced (c # s) \<longleftrightarrow>
     (\<not> is_space c \<or> (c = CHR '' '' \<and> (s = [] \<or> \<not> is_space (hd s)))) \<and> spaced s"
  by (cases s) auto

lemma set_collapse_whitespace:
  "set (collapse_whitespace s) \<subseteq> insert CHR '' '' (set s)"
proof (induction s rule: collapse_whitespace.induct)
  case 1 show ?case by simp
next
  case (2 c cs)
  show ?case
  proof (cases "is_space c")
    case True
    then have "collapse_whitespace (c # cs) = CHR '' '' # collapse_whitespace (dropWhile is_space cs)"
      by simp
    moreover have "set (dropWhile is_space cs) \<subseteq> set cs" by (auto dest: set_dropWhileD)
    moreover note 2(1)[OF True]
    ultimately show ?thesis by auto
  next
    case False
    then have "collapse_whitespace (c # cs) = c # collapse_whitespace cs" by simp
    with 2(2)[OF False] show ?thesis by auto
  qed
qed

lemma hd_collapse_whitespace:
  "s \<noteq> [] \<Longrightarrow> \<not> is_space (hd s) \<Longrightarrow>
     collapse_whitespace s \<noteq> [] \<and> hd (collapse_whitespace s) = hd s"
  by (cases s) simp_all

lemma collapse_whitespace_spaced: "spaced (collapse_whitespace s)"
proof (induction s rule: collapse_whitespace.induct)
  case 1 show ?case by simp
next
  case (2 c cs)
  show ?case
  proof (cases "is_space c")
    case True
    let ?d = "dropWhile is_space cs"
    from True have eq: "collapse_whitespace (c # cs) = CHR '' '' # collapse_whitespace ?d"
      by simp
    have "collapse_whitespace ?d = [] \<or> \<not> is_space (hd (collapse_whitespace ?d))"
    proof (cases "?d = []")
      case True
      then have "collapse_whitespace ?d = collapse_whitespace []" by (rule arg_cong)
      then show ?thesis by (simp only: collapse_whitespace.simps) simp
    next
      case False
      then have "\<not> is_space (hd ?d)" by (rule hd_dropWhile)
      with False hd_collapse_whitespace [of ?d] show ?thesis by simp
    qed
    with 2(1)[OF True] show ?thesis unfolding eq spaced_Cons by simp
  next
    case False
    then have eq: "collapse_whitespace (c # cs) = c # collapse_whitespace cs" by simp
    from False 2(2)[OF False] show ?thesis unfolding eq spaced_Cons by simp
  qed
qed

lemma collapse_whitespace_id: "spaced s \<Longrightarrow> collapse_whitespace s = s"
proof (induction s)
  case Nil show ?case by simp
next
  case (Cons c cs)
  from Cons.prems have sp: "spaced cs"
    and hd: "\<not> is_space c \<or> (c = CHR '' '' \<and> (cs = [] \<or> \<not> is_space (hd cs)))"
    unfolding spaced_Cons by simp_all
  from sp have IH: "collapse_whitespace cs = cs" by (rule Cons.IH)
  show ?case
  proof (cases "is_space c")
    case False
    with IH show ?thesis by simp
  next
    case True
    with hd have c: "c = CHR '' ''" and "cs = [] \<or> \<not> is_space (hd cs)" by simp_all
    then have "dropWhile is_space cs = cs" by (cases cs) auto
    with True IH c show ?thesis by simp
  qed
qed

lemma spaced_only_space: "spaced s \<Longrightarrow> c \<in> set s \<Longrightarrow> is_space c \<Longrightarrow> c = CHR '' ''"
proof (induction s)
  case Nil then show ?case by simp
next
  case (Cons a s)
  then show ?case unfolding spaced_Cons by auto
qed

lemma spaced_append_left: "spaced (a @ b) \<Longrightarrow> spaced a"
proof (induction a)
  case Nil show ?case by simp
next
  case (Cons x a)
  then have "spaced a" unfolding append_Cons spaced_Cons by simp
  moreover from Cons.prems have "\<not> is_space x \<or> (x = CHR '' '' \<and> (a = [] \<or> \<not> is_space (hd a)))"
    unfolding append_Cons spaced_Cons by (cases a) auto
  ultimately show ?case unfolding spaced_Cons by simp
qed

lemma spaced_append_right: "spaced (a @ b) \<Longrightarrow> spaced b"
proof (induction a)
  case Nil then show ?case by simp
next
  case (Cons x a)
  then show ?case unfolding append_Cons spaced_Cons by simp
qed

lemma spaced_append:
  "spaced a \<Longrightarrow> spaced b \<Longrightarrow> b = [] \<or> \<not> is_space (hd b) \<Longrightarrow> spaced (a @ b)"
proof (induction a)
  case Nil then show ?case by simp
next
  case (Cons x a)
  from Cons.prems(1) have a: "spaced a"
    and x: "\<not> is_space x \<or> (x = CHR '' '' \<and> (a = [] \<or> \<not> is_space (hd a)))"
    unfolding spaced_Cons by simp_all
  from a Cons.prems(2,3) have "spaced (a @ b)" by (rule Cons.IH)
  moreover from x Cons.prems(3)
  have "\<not> is_space x \<or> (x = CHR '' '' \<and> (a @ b = [] \<or> \<not> is_space (hd (a @ b))))"
    by (cases a) auto
  ultimately show ?case unfolding append_Cons spaced_Cons by simp
qed

lemma trim_infix: "\<exists>a b. s = a @ trim s @ b"
proof -
  let ?d = "dropWhile is_space s"
  have "s = takeWhile is_space s @ ?d" by simp
  moreover have "rev (takeWhile is_space (rev ?d) @ dropWhile is_space (rev ?d)) = ?d"
    by (simp only: takeWhile_dropWhile_id rev_rev_ident)
  then have "?d = trim s @ rev (takeWhile is_space (rev ?d))"
    by (simp only: rev_append trim_def)
  ultimately have "s = takeWhile is_space s @ trim s @ rev (takeWhile is_space (rev ?d))"
    by simp
  then show ?thesis by blast
qed

lemma trim_spaced: "spaced s \<Longrightarrow> spaced (trim s)"
proof -
  assume sp: "spaced s"
  obtain a b where "s = a @ trim s @ b" using trim_infix by blast
  with sp have "spaced (a @ trim s @ b)" by simp
  then have "spaced (trim s @ b)" by (rule spaced_append_right)
  then show ?thesis by (rule spaced_append_left)
qed

lemma trim_trimmed: "trimmed (trim s)"
proof (cases "trim s = []")
  case True then show ?thesis by (simp add: trimmed_def)
next
  case False
  let ?d = "dropWhile is_space s"
  let ?e = "dropWhile is_space (rev ?d)"
  have t: "trim s = rev ?e" by (simp add: trim_def)
  with False have ne: "?e \<noteq> []" by simp
  then have l: "\<not> is_space (hd ?e)" by (rule hd_dropWhile)
  from ne have dne: "?d \<noteq> []" by (metis dropWhile.simps(1) rev.simps(1))
  then have h: "\<not> is_space (hd ?d)" by (rule hd_dropWhile)
  have "rev ?d = takeWhile is_space (rev ?d) @ ?e" by simp
  with ne have "last (rev ?d) = last ?e" by (metis last_appendR)
  with dne have "last ?e = hd ?d" by (simp add: last_rev)
  with ne l h show ?thesis unfolding trimmed_def t by (simp add: hd_rev last_rev)
qed

lemma trim_id: "trimmed s \<Longrightarrow> trim s = s"
proof (cases "s = []")
  case True then show ?thesis by (simp add: trim_def)
next
  case False
  assume "trimmed s"
  with False have h: "\<not> is_space (hd s)" and l: "\<not> is_space (last s)"
    by (simp_all add: trimmed_def)
  from False h have d: "dropWhile is_space s = s" by (cases s) auto
  from False l have "\<not> is_space (hd (rev s))" by (simp add: hd_rev)
  with False have "dropWhile is_space (rev s) = rev s" by (cases "rev s") auto
  with d show ?thesis by (simp add: trim_def)
qed


lemma tagfree_append:
  "tagfree (a @ b) \<longleftrightarrow>
     tagfree a \<and> tagfree b \<and> (CHR ''<'' \<notin> set a \<or> CHR ''>'' \<notin> set b)"
  by (induction a) auto

lemma collapse_whitespace_tagfree: "tagfree s \<Longrightarrow> tagfree (collapse_whitespace s)"
proof (induction s rule: collapse_whitespace.induct)
  case 1 show ?case by simp
next
  case (2 c cs)
  from "2.prems" have tf: "tagfree cs" and c: "c \<noteq> CHR ''<'' \<or> CHR ''>'' \<notin> set cs"
    by simp_all
  show ?case
  proof (cases "is_space c")
    case True
    then have eq: "collapse_whitespace (c # cs) = CHR '' '' # collapse_whitespace (dropWhile is_space cs)"
      by simp
    have "cs = takeWhile is_space cs @ dropWhile is_space cs" by simp
    with tf have "tagfree (takeWhile is_space cs @ dropWhile is_space cs)" by simp
    then have "tagfree (dropWhile is_space cs)" unfolding tagfree_append by simp
    with 2(1)[OF True] show ?thesis unfolding eq by simp
  next
    case False
    then have eq: "collapse_whitespace (c # cs) = c # collapse_whitespace cs" by simp
    from c set_collapse_whitespace [of cs]
    have "c \<noteq> CHR ''<'' \<or> CHR ''>'' \<notin> set (collapse_whitespace cs)" by auto
    with 2(2)[OF False tf] show ?thesis unfolding eq by simp
  qed
qed

lemma trim_tagfree: "tagfree s \<Longrightarrow> tagfree (trim s)"
proof -
  assume tf: "tagfree s"
  obtain a b where "s = a @ trim s @ b" using trim_infix by blast
  with tf have "tagfree (a @ trim s @ b)" by simp
  then show ?thesis unfolding tagfree_append by simp
qed

lemma collapse_whitespace_no_lf: "CHR 0x0A \<notin> set (collapse_whitespace s)"
proof
  assume "CHR 0x0A \<in> set (collapse_whitespace s)"
  with collapse_whitespace_spaced [of s] have "is_space CHR 0x0A \<longrightarrow> CHR 0x0A = CHR '' ''"
    using spaced_only_space by blast
  then show False by (simp add: is_space_def)
qed

lemma squeeze_blank_lines_id: "CHR 0x0A \<notin> set s \<Longrightarrow> squeeze_blank_lines s = s"
proof (induction s)
  case Nil show ?case by simp
next
  case (Cons c cs)
  then have "c \<noteq> CHR 0x0A" and "squeeze_blank_lines cs = cs" by auto
  then show ?case by (simp add: Let_def)
qed

lemma cleanText_normal: "cleanText t = trim (collapse_whitespace t)"
  by (simp add: cleanText_def squeeze_blank_lines_id collapse_whitespace_no_lf)

lemma normal_fixed:
  assumes "spaced s" and "trimmed s"
  shows "trim (collapse_whitespace s) = s"
  using assms by (simp add: collapse_whitespace_id trim_id)

lemma cleanText_idem: "cleanText (cleanText t) = cleanText t"
proof -
  have "spaced (cleanText t)" unfolding cleanText_normal
    by (rule trim_spaced) (rule collapse_whitespace_spaced)
  moreover have "trimmed (cleanText t)" unfolding cleanText_normal by (rule trim_trimmed)
  ultimately have "trim (collapse_whitespace (cleanText t)) = cleanText t" by (rule normal_fixed)
  then show ?thesis by (simp only: cleanText_normal)
qed

lemma extractTextContent_alt: "extractTextContent html = truncate_text (clean_html html)"
  by (simp add: extractTextContent_def truncate_text_def clean_html_def Let_def)

lemma marker_facts:
  "tagfree ''... (content truncated)''" "spaced ''... (content truncated)''"
  "CHR ''>'' \<notin> set ''... (content truncated)''"
  "length ''... (content truncated)'' = 23"
  by (simp_all add: is_space_def)

lemma truncate_text_props:
  assumes tf: "tagfree t" and sp: "spaced t" and tr: "trimmed t"
  shows "tagfree (truncate_text t)" and "spaced (truncate_text t)"
    and "trimmed (truncate_text t)" and "truncate_text (truncate_text t) = truncate_text t"
proof -
  let ?m = "''... (content truncated)''"
  show "tagfree (truncate_text t)"
  proof (cases "length t > 10000")
    case False with tf show ?thesis by (simp add: truncate_text_def)
  next
    case True
    have "t = take 10000 t @ drop 10000 t" by simp
    with tf have "tagfree (take 10000 t @ drop 10000 t)" by simp
    then have "tagfree (take 10000 t)" unfolding tagfree_append by simp
    with marker_facts(1,3) have "tagfree (take 10000 t @ ?m)"
      by (simp only: tagfree_append) simp
    with True show ?thesis by (simp add: truncate_text_def)
  qed
  show "spaced (truncate_text t)"
  proof (cases "length t > 10000")
    case False with sp show ?thesis by (simp add: truncate_text_def)
  next
    case True
    have "t = take 10000 t @ drop 10000 t" by simp
    with sp have "spaced (take 10000 t @ drop 10000 t)" by simp
    then have "spaced (take 10000 t)" by (rule spaced_append_left)
    then have "spaced (take 10000 t @ ?m)"
      using marker_facts(2) by (rule spaced_append) (simp add: is_space_def)
    with True show ?thesis by (simp add: truncate_text_def)
  qed
  show "trimmed (truncate_text t)"
  proof (cases "length t > 10000")
    case False with tr show ?thesis by (simp add: truncate_text_def)
  next
    case True
    then have ne: "t \<noteq> []" by auto
    with tr have "\<not> is_space (hd t)" by (simp add: trimmed_def)
    moreover from ne have "hd (take 10000 t @ ?m) = hd t" by (cases t) simp_all
    moreover have "last (take 10000 t @ ?m) = CHR '')''" by simp
    ultimately have "trimmed (take 10000 t @ ?m)" by (simp add: trimmed_def is_space_def)
    with True show ?thesis by (simp add: truncate_text_def)
  qed
  show "truncate_text (truncate_text t) = truncate_text t"
  proof (cases "length t > 10000")
    case False then show ?thesis by (simp add: truncate_text_def)
  next
    case True
    then have "length (take 10000 t) = 10000" by simp
    then have "take 10000 (take 10000 t @ ?m) = take 10000 t" by simp
    moreover have "length (take 10000 t @ ?m) > 10000" using True by simp
    ultimately show ?thesis using True by (simp add: truncate_text_def)
  qed
qed

lemma clean_html_props:
  "tagfree (clean_html h)" "spaced (clean_html h)" "trimmed (clean_html h)"
proof -
  show "tagfree (clean_html h)" unfolding clean_html_def
    by (intro trim_tagfree collapse_whitespace_tagfree strip_tags_tagfree)
  show "spaced (clean_html h)" unfolding clean_html_def
    by (intro trim_spaced collapse_whitespace_spaced)
  show "trimmed (clean_html h)" unfolding clean_html_def by (rule trim_trimmed)
qed

lemma clean_html_fixed:
  assumes "tagfree s" and "spaced s" and "trimmed s"
  shows "clean_html s = s"
  using assms
  by (simp add: clean_html_def remove_blocks_id strip_tags_id collapse_whitespace_id trim_id)

lemma extractTextContent_idem:
  "extractTextContent (extractTextContent h) = extractTextContent h"
proof -
  let ?t = "clean_html h"
  note p = clean_html_props [of h]
  note q = truncate_text_props [OF p]
  have "clean_html (truncate_text ?t) = truncate_text ?t"
    using q(1,2,3) by (rule clean_html_fixed)
  with q(4) show ?thesis by (simp add: extractTextContent_alt)
qed


section \<open>Properties of the simplified server\<close>

lemma child_of_mono: "child_of w ls p \<Longrightarrow> child_of w (l # ls) p"
  by (auto simp: child_of_def)

lemma fetchSimpleContent_Some:
  "fetchSimpleContent w u st = (Some c, st') \<Longrightarrow>
     \<exists>s. accepted_body (axios_get w (length (requests st)) u \<lparr> timeout = 5000, user_agent = userAgent \<rparr>) = Some s \<and>
         c = extractTextContent s"
  by (auto simp: fetchSimpleContent_def Let_def)

lemma explore_children_pages:
  "explore_children w ls acc st = (res, st') \<Longrightarrow>
     \<exists>new. res = acc @ new \<and> (\<forall>p \<in> set new. child_of w ls p)"
proof (induction ls arbitrary: acc st)
  case Nil
  then show ?case by simp
next
  case (Cons l ls)
  show ?case
  proof (cases "link_url l \<in> set (visitedUrls st)")
    case True
    with Cons.prems have "explore_children w ls acc st = (res, st')" by simp
    from Cons.IH [OF this] show ?thesis by (auto intro: child_of_mono)
  next
    case False
    obtain r st1 where f: "fetchSimpleContent w (link_url l) st = (r, st1)"
      by (cases "fetchSimpleContent w (link_url l) st")
    show ?thesis
    proof (cases r)
      case None
      with False f Cons.prems have "explore_children w ls acc st1 = (res, st')" by simp
      from Cons.IH [OF this] show ?thesis by (auto intro: child_of_mono)
    next
      case (Some c)
      show ?thesis
      proof (cases "c = []")
        case True
        with Some False f Cons.prems have "explore_children w ls acc st1 = (res, st')" by simp
        from Cons.IH [OF this] show ?thesis by (auto intro: child_of_mono)
      next
        case nonempty: False
        let ?p = "\<lparr> page_url = link_url l, page_title = None, page_content = c, page_links = [] \<rparr>"
        from nonempty Some False f Cons.prems
        have "explore_children w ls (acc @ [?p]) (visit (link_url l) st1) = (res, st')" by simp
        from Cons.IH [OF this] obtain new
          where res: "res = (acc @ [?p]) @ new" and new: "\<forall>p \<in> set new. child_of w ls p"
          by blast
        from f Some fetchSimpleContent_Some
        obtain s where "accepted_body (axios_get w (length (requests st)) (link_url l)
              \<lparr> timeout = 5000, user_agent = userAgent \<rparr>) = Some s" and "c = extractTextContent s"
          by blast
        with nonempty have "child_of w (l # ls) ?p" unfolding child_of_def by auto
        with new have "\<forall>p \<in> set (?p # new). child_of w (l # ls) p"
          by (auto intro: child_of_mono)
        with res show ?thesis by (intro exI [of _ "?p # new"]) simp
      qed
    qed
  qed
qed

lemma rendered_result_ok:
  assumes "rendered_result w url d doc st = (res, st')"
  shows "\<exists>r. res = Inr r \<and> ok_result w url d r"
proof -
  define links where "links =
            filter (\<lambda>l. same_hostname w (link_url l) url)
              (List.map_filter
                 (\<lambda>l. case url_resolve w (link_url l) url of
                         None \<Rightarrow> None
                       | Some fullUrl \<Rightarrow> Some \<lparr> link_url = fullUrl, link_text = link_text l \<rparr>)
                 (snd (page_script doc)))"
  define t where "t = trim (collapse_whitespace (fst (page_script doc)))"
  define root where "root = \<lparr> page_url = url, page_title = None, page_content = truncate_text t,
                   page_links = take 10 links \<rparr>"
  show ?thesis
  proof (cases "d \<le> 1 \<or> links = []")
    case True
    with assms have "res = Inr \<lparr> rootUrl = url, explorationDepth = d, pagesExplored = 1,
                     content = [root], error = None \<rparr>"
      by (simp add: rendered_result_def Let_def links_def t_def root_def truncate_text_def)
    then show ?thesis by (auto simp: ok_result_def root_def)
  next
    case False
    obtain cs st2 where e: "explore_children w (take (min 3 (length links)) links) [] st = (cs, st2)"
      by (cases "explore_children w (take (min 3 (length links)) links) [] st")
    with False assms have "res = Inr \<lparr> rootUrl = url, explorationDepth = d,
                          pagesExplored = 1 + length cs,
                          content = root # cs, error = None \<rparr>"
      by (simp add: rendered_result_def Let_def links_def t_def root_def truncate_text_def)
    moreover from explore_children_pages [OF e]
    have "\<forall>p \<in> set cs. child_of w (take (min 3 (length links)) links) p" by simp
    ultimately show ?thesis unfolding ok_result_def root_def by fastforce
  qed
qed

lemma fetchWithPuppeteer_cases:
  assumes "fetchWithPuppeteer w url d st = (res, st')"
  shows "(\<exists>e. res = Inl e) \<or> (\<exists>r. res = Inr r \<and> ok_result w url d r)"
proof (cases "render w (length (requests st)) url")
  case (LaunchFails e)
  with assms show ?thesis by (auto simp: fetchWithPuppeteer_def Let_def)
next
  case (PageFails e)
  with assms show ?thesis
    by (auto simp: fetchWithPuppeteer_def Let_def finally_close_def split: option.splits)
next
  case (Rendered doc)
  obtain res1 st1 where r: "rendered_result w url d doc (issue (PuppeteerFetch url) st) = (res1, st1)"
    by (cases "rendered_result w url d doc (issue (PuppeteerFetch url) st)")
  from rendered_result_ok [OF r] obtain r1 where "res1 = Inr r1" "ok_result w url d r1" by blast
  with Rendered r assms show ?thesis
    by (auto simp: fetchWithPuppeteer_def Let_def finally_close_def split: option.splits)
qed

lemma visit_nonempty: "visitedUrls (visit u st) \<noteq> []"
  by (auto simp: visit_def set_add_def)

lemma fetchSimpleContent_visited:
  "fetchSimpleContent w u st = (r, st') \<Longrightarrow> visitedUrls st' = visitedUrls st"
  by (auto simp: fetchSimpleContent_def Let_def issue_def)

lemma explore_children_visited:
  "explore_children w ls acc st = (res, st') \<Longrightarrow> set (visitedUrls st) \<subseteq> set (visitedUrls st')"
proof (induction ls arbitrary: acc st)
  case Nil then show ?case by simp
next
  case (Cons l ls)
  show ?case
  proof (cases "link_url l \<in> set (visitedUrls st)")
    case True
    with Cons.prems have "explore_children w ls acc st = (res, st')" by simp
    from Cons.IH [OF this] show ?thesis .
  next
    case False
    obtain r st1 where f: "fetchSimpleContent w (link_url l) st = (r, st1)"
      by (cases "fetchSimpleContent w (link_url l) st")
    from f have v: "visitedUrls st1 = visitedUrls st" by (rule fetchSimpleContent_visited)
    show ?thesis
    proof (cases "\<exists>c. r = Some c \<and> c \<noteq> []")
      case True
      then obtain c where "r = Some c" "c \<noteq> []" by blast
      with False f Cons.prems obtain acc' where
        "explore_children w ls acc' (visit (link_url l) st1) = (res, st')" by simp
      from Cons.IH [OF this] v show ?thesis by (auto simp: visit_def set_add_def split: if_splits)
    next
      case no: False
      with False f Cons.prems have "explore_children w ls acc st1 = (res, st')"
        by (cases r) auto
      from Cons.IH [OF this] v show ?thesis by simp
    qed
  qed
qed

lemma rendered_result_visited:
  assumes "rendered_result w url d doc st = (res, st')"
  shows "set (visitedUrls st) \<subseteq> set (visitedUrls st')"
proof -
  define links where "links =
            filter (\<lambda>l. same_hostname w (link_url l) url)
              (List.map_filter
                 (\<lambda>l. case url_resolve w (link_url l) url of
                         None \<Rightarrow> None
                       | Some fullUrl \<Rightarrow> Some \<lparr> link_url = fullUrl, link_text = link_text l \<rparr>)
                 (snd (page_script doc)))"
  show ?thesis
  proof (cases "d \<le> 1 \<or> links = []")
    case True
    with assms have "st' = st" by (simp add: rendered_result_def Let_def links_def)
    then show ?thesis by simp
  next
    case False
    obtain cs st2 where e: "explore_children w (take (min 3 (length links)) links) [] st = (cs, st2)"
      by (cases "explore_children w (take (min 3 (length links)) links) [] st")
    with False assms have "st' = st2" by (simp add: rendered_result_def Let_def links_def)
    with explore_children_visited [OF e] show ?thesis by simp
  qed
qed

lemma fetchWithPuppeteer_visited:
  assumes "fetchWithPuppeteer w url d st = (res, st')"
  shows "set (visitedUrls st) \<subseteq> set (visitedUrls st')"
proof (cases "render w (length (requests st)) url")
  case (LaunchFails e)
  with assms show ?thesis by (auto simp: fetchWithPuppeteer_def Let_def issue_def)
next
  case (PageFails e)
  with assms show ?thesis
    by (auto simp: fetchWithPuppeteer_def Let_def finally_close_def issue_def split: option.splits)
next
  case (Rendered doc)
  obtain res1 st1 where r: "rendered_result w url d doc (issue (PuppeteerFetch url) st) = (res1, st1)"
    by (cases "rendered_result w url d doc (issue (PuppeteerFetch url) st)")
  from rendered_result_visited [OF r]
  have "set (visitedUrls st) \<subseteq> set (visitedUrls st1)" by (simp add: issue_def)
  moreover from Rendered r assms have "st' = st1"
    by (auto simp: fetchWithPuppeteer_def Let_def finally_close_def split: option.splits)
  ultimately show ?thesis by simp
qed

lemma fetchContent_cases:
  assumes "fetchContent w url d st = (res, st')"
  shows "\<exists>r. res = Inr r \<and> (ok_result w url d r \<or> failed_result url d st' r)"
proof -
  let ?config = "\<lparr> timeout = 10000, user_agent = userAgent \<rparr>"
  let ?st1 = "visit url st"
  let ?st2 = "issue (AxiosGet url ?config) ?st1"
  show ?thesis
  proof (cases "accepted_body (axios_get w (length (requests ?st1)) url ?config)")
    case (Some data)
    define links where "links = extractLinks w data url"
    define root where "root = \<lparr> page_url = url, page_title = None,
        page_content = extractTextContent data, page_links = take 10 links \<rparr>"
    have rc: "\<exists>t. page_content root = truncate_text t"
      unfolding root_def using extractTextContent_alt by auto
    show ?thesis
    proof (cases "d \<le> 1")
      case True
      with Some assms have "res = Inr \<lparr> rootUrl = url, explorationDepth = d, pagesExplored = 1,
                             content = [root], error = None \<rparr>"
        by (simp add: fetchContent_def Let_def root_def links_def)
      with rc show ?thesis by (auto simp: ok_result_def root_def)
    next
      case False
      obtain cs st3 where e: "explore_children w (take (min 5 (length links)) links) [] ?st2 = (cs, st3)"
        by (cases "explore_children w (take (min 5 (length links)) links) [] ?st2")
      with False Some assms have "res = Inr \<lparr> rootUrl = url, explorationDepth = d,
                                  pagesExplored = 1 + length cs,
                                  content = root # cs, error = None \<rparr>"
        by (simp add: fetchContent_def Let_def root_def links_def)
      moreover from explore_children_pages [OF e]
      have "\<forall>p \<in> set cs. child_of w (take (min 5 (length links)) links) p" by simp
      ultimately show ?thesis using rc unfolding ok_result_def root_def by fastforce
    qed
  next
    case None
    obtain res1 st3 where p: "fetchWithPuppeteer w url d ?st2 = (res1, st3)"
      by (cases "fetchWithPuppeteer w url d ?st2")
    from fetchWithPuppeteer_visited [OF p] have "set (visitedUrls ?st1) \<subseteq> set (visitedUrls st3)"
      by (simp add: issue_def)
    with visit_nonempty [of url st] have ne: "0 < length (visitedUrls st3)" by auto
    from fetchWithPuppeteer_cases [OF p] show ?thesis
    proof
      assume "\<exists>e. res1 = Inl e"
      then obtain e where "res1 = Inl e" ..
      with None p ne assms have "st' = st3" and "res = Inr \<lparr> rootUrl = url, explorationDepth = d,
                              pagesExplored = length (visitedUrls st3),
                              content = [], error = Some (error_message e) \<rparr>"
        by (auto simp add: fetchContent_def Let_def)
      with ne show ?thesis by (simp add: failed_result_def)
    next
      assume "\<exists>r. res1 = Inr r \<and> ok_result w url d r"
      then obtain r where "res1 = Inr r" "ok_result w url d r" by blast
      with None p assms show ?thesis by (auto simp add: fetchContent_def Let_def)
    qed
  qed
qed

lemma callTool_simplified_result:
  assumes "callTool_simplified w first url depth = ToolResult r"
  shows "\<exists>st'. fetchContent w url depth cleared = (Inr r, st')"
proof (cases first)
  case TimerFiresFirst
  with assms show ?thesis by (simp add: callTool_simplified_def)
next
  case FetchSettlesFirst
  obtain res st' where f: "fetchContent w url depth cleared = (res, st')"
    by (cases "fetchContent w url depth cleared")
  with FetchSettlesFirst assms have "res = Inr r"
    by (cases res) (simp_all add: callTool_simplified_def)
  with f show ?thesis by simp
qed

lemma truncate_text_length:
  "length (truncate_text t) \<le> 10000 \<or>
   (length (truncate_text t) = 10023 \<and> drop 10000 (truncate_text t) = ''... (content truncated)'')"
  by (simp add: truncate_text_def)

lemma explore_children_distinct:
  "explore_children w ls acc st = (res, st') \<Longrightarrow>
     \<exists>new. res = acc @ new \<and> distinct (map page_url new) \<and>
           (\<forall>p \<in> set new. page_url p \<notin> set (visitedUrls st))"
proof (induction ls arbitrary: acc st)
  case Nil then show ?case by simp
next
  case (Cons l ls)
  show ?case
  proof (cases "link_url l \<in> set (visitedUrls st)")
    case True
    with Cons.prems have "explore_children w ls acc st = (res, st')" by simp
    from Cons.IH [OF this] show ?thesis .
  next
    case False
    obtain r st1 where f: "fetchSimpleContent w (link_url l) st = (r, st1)"
      by (cases "fetchSimpleContent w (link_url l) st")
    from f have v: "visitedUrls st1 = visitedUrls st" by (rule fetchSimpleContent_visited)
    show ?thesis
    proof (cases "\<exists>c. r = Some c \<and> c \<noteq> []")
      case True
      then obtain c where c: "r = Some c" "c \<noteq> []" by blast
      let ?p = "\<lparr> page_url = link_url l, page_title = None, page_content = c, page_links = [] \<rparr>"
      from c False f Cons.prems
      have "explore_children w ls (acc @ [?p]) (visit (link_url l) st1) = (res, st')" by simp
      from Cons.IH [OF this] obtain new where res: "res = (acc @ [?p]) @ new"
        and d: "distinct (map page_url new)"
        and n: "\<forall>p \<in> set new. page_url p \<notin> set (visitedUrls (visit (link_url l) st1))"
        by blast
      have vs: "set (visitedUrls (visit (link_url l) st1)) = insert (link_url l) (set (visitedUrls st))"
        using v by (auto simp: visit_def set_add_def)
      from n vs have "\<forall>p \<in> set new. page_url p \<noteq> link_url l \<and> page_url p \<notin> set (visitedUrls st)"
        by auto
      with d False have "distinct (map page_url (?p # new)) \<and>
           (\<forall>p \<in> set (?p # new). page_url p \<notin> set (visitedUrls st))" by auto
      with res show ?thesis by (intro exI [of _ "?p # new"]) simp
    next
      case no: False
      with False f Cons.prems have "explore_children w ls acc st1 = (res, st')"
        by (cases r) auto
      from Cons.IH [OF this] v show ?thesis by simp
    qed
  qed
qed

lemma explore_children_requests:
  "explore_children w ls acc st = (res, st') \<Longrightarrow>
     \<exists>added. requests st' = requests st @ added \<and> (\<forall>e \<in> set added. child_request e)"
proof (induction ls arbitrary: acc st)
  case Nil then show ?case by simp
next
  case (Cons l ls)
  show ?case
  proof (cases "link_url l \<in> set (visitedUrls st)")
    case True
    with Cons.prems have "explore_children w ls acc st = (res, st')" by simp
    from Cons.IH [OF this] show ?thesis .
  next
    case False
    obtain r st1 where f: "fetchSimpleContent w (link_url l) st = (r, st1)"
      by (cases "fetchSimpleContent w (link_url l) st")
    let ?e = "(AxiosGet (link_url l) \<lparr> timeout = 5000, user_agent = userAgent \<rparr>, visitedUrls st)"
    from f have rq: "requests st1 = requests st @ [?e]"
      by (auto simp: fetchSimpleContent_def Let_def issue_def)
    from False have ce: "child_request ?e" by (simp add: child_request_def)
    have "\<exists>acc' st2. explore_children w ls acc' st2 = (res, st') \<and> requests st2 = requests st1"
    proof (cases "\<exists>c. r = Some c \<and> c \<noteq> []")
      case True
      then obtain c where "r = Some c" "c \<noteq> []" by blast
      with False f Cons.prems obtain acc' where
        "explore_children w ls acc' (visit (link_url l) st1) = (res, st')" by simp
      moreover have "requests (visit (link_url l) st1) = requests st1" by (simp add: visit_def)
      ultimately show ?thesis by blast
    next
      case no: False
      with False f Cons.prems have "explore_children w ls acc st1 = (res, st')"
        by (cases r) auto
      then show ?thesis by blast
    qed
    then obtain acc' st2 where e: "explore_children w ls acc' st2 = (res, st')"
      and r2: "requests st2 = requests st1" by blast
    from Cons.IH [OF e] obtain added where "requests st' = requests st2 @ added"
      and "\<forall>e \<in> set added. child_request e" by blast
    with rq r2 ce have "requests st' = requests st @ (?e # added) \<and> (\<forall>e \<in> set (?e # added). child_request e)"
      by simp
    then show ?thesis by blast
  qed
qed

lemma rendered_result_unfold:
  "rendered_result w url d doc st =
     (let links = rendered_links w url doc;
          root = \<lparr> page_url = url, page_title = None,
                   page_content = truncate_text (trim (collapse_whitespace (fst (page_script doc)))),
                   page_links = take 10 links \<rparr>
      in if d \<le> 1 \<or> links = []
         then (Inr \<lparr> rootUrl = url, explorationDepth = d, pagesExplored = 1,
                     content = [root], error = None \<rparr>, st)
         else (case explore_children w (take (min 3 (length links)) links) [] st of
                 (childResults, st') \<Rightarrow>
                   (Inr \<lparr> rootUrl = url, explorationDepth = d,
                          pagesExplored = 1 + length childResults,
                          content = root # childResults, error = None \<rparr>, st')))"
  by (simp add: rendered_result_def rendered_links_def truncate_text_def Let_def)

lemma rendered_result_trace:
  assumes "rendered_result w url d doc st = (res, st')" and "url \<in> set (visitedUrls st)"
  shows "\<exists>r added. res = Inr r \<and> distinct (map page_url (content r)) \<and>
           requests st' = requests st @ added \<and> (\<forall>e \<in> set added. child_request e)"
proof (cases "d \<le> 1 \<or> rendered_links w url doc = []")
  case True
  with assms(1) show ?thesis by (auto simp: rendered_result_unfold Let_def)
next
  case False
  let ?ls = "take (min 3 (length (rendered_links w url doc))) (rendered_links w url doc)"
  obtain cs st2 where e: "explore_children w ?ls [] st = (cs, st2)"
    by (cases "explore_children w ?ls [] st")
  from explore_children_distinct [OF e] assms(2)
  have "distinct (map page_url cs)" and "\<forall>p \<in> set cs. page_url p \<noteq> url" by auto
  then have d: "\<And>root. page_url root = url \<Longrightarrow> distinct (map page_url (root # cs))" by auto
  from explore_children_requests [OF e] obtain added
    where a: "requests st2 = requests st @ added" "\<forall>e \<in> set added. child_request e" by blast
  define root where "root = \<lparr> page_url = url, page_title = None,
                   page_content = truncate_text (trim (collapse_whitespace (fst (page_script doc)))),
                   page_links = take 10 (rendered_links w url doc) \<rparr>"
  define r where "r = \<lparr> rootUrl = url, explorationDepth = d,
                          pagesExplored = 1 + length cs,
                          content = root # cs, error = None \<rparr>"
  from False e assms(1) have "st' = st2" "res = Inr r"
    by (auto simp: rendered_result_unfold Let_def r_def root_def)
  moreover have "page_url root = url" "content r = root # cs" by (simp_all add: r_def root_def)
  ultimately show ?thesis using d a by (intro exI [of _ r] exI [of _ added]) simp
qed

lemma fetchWithPuppeteer_trace:
  assumes "fetchWithPuppeteer w url d st = (res, st')" and "url \<in> set (visitedUrls st)"
  shows "\<exists>added. requests st' = requests st @ (PuppeteerFetch url, visitedUrls st) # added \<and>
           (\<forall>e \<in> set added. child_request e) \<and>
           (\<forall>r. res = Inr r \<longrightarrow> distinct (map page_url (content r)))"
proof (cases "render w (length (requests st)) url")
  case (LaunchFails e)
  with assms show ?thesis by (auto simp: fetchWithPuppeteer_def Let_def issue_def)
next
  case (PageFails e)
  with assms show ?thesis
    by (auto simp: fetchWithPuppeteer_def Let_def finally_close_def issue_def split: option.splits)
next
  case (Rendered doc)
  let ?st1 = "issue (PuppeteerFetch url) st"
  obtain res1 st1 where r: "rendered_result w url d doc ?st1 = (res1, st1)"
    by (cases "rendered_result w url d doc ?st1")
  from assms(2) have "url \<in> set (visitedUrls ?st1)" by (simp add: issue_def)
  from rendered_result_trace [OF r this] obtain r1 added where
    "res1 = Inr r1" "distinct (map page_url (content r1))"
    "requests st1 = requests ?st1 @ added" "\<forall>e \<in> set added. child_request e" by blast
  moreover from Rendered r assms have "st' = st1" and "(\<exists>e. res = Inl e) \<or> res = res1"
    by (auto simp: fetchWithPuppeteer_def Let_def finally_close_def split: option.splits)
  ultimately show ?thesis by (auto simp: issue_def)
qed

lemma fetchContent_trace:
  assumes "fetchContent w url d st = (res, st')"
  shows "\<exists>r added. res = Inr r \<and> distinct (map page_url (content r)) \<and>
           (\<forall>e \<in> set added. child_request e) \<and>
           (case accepted_body (axios_get w (length (requests st)) url \<lparr> timeout = 10000, user_agent = userAgent \<rparr>) of
              Some data \<Rightarrow>
                requests st' = requests st @
                  (AxiosGet url \<lparr> timeout = 10000, user_agent = userAgent \<rparr>, visitedUrls (visit url st)) # added \<and>
                error r = None \<and> content r \<noteq> [] \<and> page_content (hd (content r)) = extractTextContent data
            | None \<Rightarrow>
                requests st' = requests st @
                  (AxiosGet url \<lparr> timeout = 10000, user_agent = userAgent \<rparr>, visitedUrls (visit url st)) #
                  (PuppeteerFetch url, visitedUrls (visit url st)) # added)"
proof -
  let ?config = "\<lparr> timeout = 10000, user_agent = userAgent \<rparr>"
  let ?st1 = "visit url st"
  let ?st2 = "issue (AxiosGet url ?config) ?st1"
  have n: "length (requests ?st1) = length (requests st)" by (simp add: visit_def)
  have in_visited: "url \<in> set (visitedUrls ?st2)"
    by (auto simp: visit_def set_add_def issue_def)
  have rq2: "requests ?st2 = requests st @ [(AxiosGet url ?config, visitedUrls ?st1)]"
    by (simp add: issue_def visit_def)
  have v2: "visitedUrls ?st2 = visitedUrls ?st1" by (simp add: issue_def)
  show ?thesis
  proof (cases "accepted_body (axios_get w (length (requests st)) url ?config)")
    case (Some data)
    define links where "links = extractLinks w data url"
    define root where "root = \<lparr> page_url = url, page_title = None,
        page_content = extractTextContent data, page_links = take 10 links \<rparr>"
    show ?thesis
    proof (cases "d \<le> 1")
      case True
      with Some assms n have "res = Inr \<lparr> rootUrl = url, explorationDepth = d, pagesExplored = 1,
                             content = [root], error = None \<rparr>" and "st' = ?st2"
        by (auto simp add: fetchContent_def Let_def root_def links_def)
      with Some rq2 show ?thesis
        by (intro exI [of _ "\<lparr> rootUrl = url, explorationDepth = d, pagesExplored = 1,
                             content = [root], error = None \<rparr>"] exI [of _ "[]"])
           (simp add: root_def)
    next
      case False
      let ?ls = "take (min 5 (length links)) links"
      obtain cs st3 where e: "explore_children w ?ls [] ?st2 = (cs, st3)"
        by (cases "explore_children w ?ls [] ?st2")
      with False Some assms n have res: "res = Inr \<lparr> rootUrl = url, explorationDepth = d,
                                  pagesExplored = 1 + length cs,
                                  content = root # cs, error = None \<rparr>" and st: "st' = st3"
        by (auto simp add: fetchContent_def Let_def root_def links_def)
      from explore_children_distinct [OF e] in_visited
      have "distinct (map page_url cs)" and "\<forall>p \<in> set cs. page_url p \<noteq> url" by auto
      then have d: "distinct (map page_url (root # cs))" by (auto simp: root_def)
      from explore_children_requests [OF e] obtain added
        where "requests st3 = requests ?st2 @ added" "\<forall>e \<in> set added. child_request e" by blast
      with rq2 st have "requests st' = requests st @ (AxiosGet url ?config, visitedUrls ?st1) # added"
        and "\<forall>e \<in> set added. child_request e" by simp_all
      with Some res d show ?thesis
        by (intro exI [of _ "\<lparr> rootUrl = url, explorationDepth = d,
                                  pagesExplored = 1 + length cs,
                                  content = root # cs, error = None \<rparr>"] exI [of _ added])
           (simp add: root_def)
    qed
  next
    case None
    obtain res1 st3 where p: "fetchWithPuppeteer w url d ?st2 = (res1, st3)"
      by (cases "fetchWithPuppeteer w url d ?st2")
    from fetchWithPuppeteer_trace [OF p in_visited] obtain added where
      a: "requests st3 = requests ?st2 @ (PuppeteerFetch url, visitedUrls ?st2) # added"
      "\<forall>e \<in> set added. child_request e"
      "\<forall>r. res1 = Inr r \<longrightarrow> distinct (map page_url (content r))" by blast
    from fetchContent_cases [OF assms] obtain r where r: "res = Inr r" by blast
    from None p assms n have st: "st' = st3"
      by (auto simp add: fetchContent_def Let_def split: sum.splits if_splits)
    from None p assms n r have "res1 = Inr r \<or> content r = []"
      by (auto simp add: fetchContent_def Let_def split: sum.splits if_splits)
    with a(3) have "distinct (map page_url (content r))" by auto
    with None r st a(1,2) rq2 v2 show ?thesis
      by (intro exI [of _ r] exI [of _ added]) simp
  qed
qed

section \<open>Properties of the recursive walker\<close>

lemma enter_cleared: "0 < depth \<Longrightarrow> enter depth 0 url cleared = Some (visit url cleared)"
  by (simp add: enter_def cleared_def)

lemma root_failure_returns_empty:
  assumes "fetchSinglePage w url = Inl e"
  shows "callTool_recursive w url depth =
     ToolResult \<lparr> rootUrl = url, explorationDepth = depth, pagesExplored = 0, content = [],
                  error = None \<rparr>"
proof (cases "0 < depth")
  case True
  with assms show ?thesis
    by (simp add: callTool_recursive_def fetchDocContentRecursive_def enter_cleared)
next
  case False
  then show ?thesis
    by (simp add: callTool_recursive_def fetchDocContentRecursive_def enter_def)
qed



lemma fetched_urls_append: "fetched_urls (xs @ ys) = fetched_urls xs @ fetched_urls ys"
  by (induction xs rule: fetched_urls.induct) simp_all

lemma entered_append: "entered (ps @ qs) = entered ps @ entered qs"
  by (induction ps rule: entered.induct) simp_all

lemma step_ok_refl: "step_ok S st st []"
  by (simp add: step_ok_def)

lemma step_ok_mono: "step_ok S st st' res \<Longrightarrow> S \<subseteq> T \<Longrightarrow> step_ok T st st' res"
proof -
  assume "step_ok S st st' res" and st: "S \<subseteq> T"
  then obtain new where n: "fetched_urls (requests st') = fetched_urls (requests st) @ new"
    "distinct new" "set new \<subseteq> set (visitedUrls st')"
    "set new \<subseteq> S \<union> (set (visitedUrls st') - set (visitedUrls st))"
    "set (visitedUrls st) \<subseteq> set (visitedUrls st')"
    "distinct (map page_url res)" "page_url ` set res \<subseteq> set new"
    unfolding step_ok_def by blast
  from n(4) st have "set new \<subseteq> T \<union> (set (visitedUrls st') - set (visitedUrls st))" by blast
  with n show ?thesis unfolding step_ok_def by (intro exI [of _ new]) simp
qed

lemma step_ok_compose:
  assumes 1: "step_ok S1 st st1 r1" and 2: "step_ok S2 st1 st2 r2"
    and S2: "S2 \<subseteq> set (visitedUrls st)" and disj: "S1 \<inter> S2 = {}"
  shows "step_ok (S1 \<union> S2) st st2 (r1 @ r2)"
proof -
  from 1 obtain n1 where n1: "fetched_urls (requests st1) = fetched_urls (requests st) @ n1"
    "distinct n1" "set n1 \<subseteq> set (visitedUrls st1)"
    "set n1 \<subseteq> S1 \<union> (set (visitedUrls st1) - set (visitedUrls st))"
    "set (visitedUrls st) \<subseteq> set (visitedUrls st1)"
    "distinct (map page_url r1)" "page_url ` set r1 \<subseteq> set n1"
    unfolding step_ok_def by blast
  from 2 obtain n2 where n2: "fetched_urls (requests st2) = fetched_urls (requests st1) @ n2"
    "distinct n2" "set n2 \<subseteq> set (visitedUrls st2)"
    "set n2 \<subseteq> S2 \<union> (set (visitedUrls st2) - set (visitedUrls st1))"
    "set (visitedUrls st1) \<subseteq> set (visitedUrls st2)"
    "distinct (map page_url r2)" "page_url ` set r2 \<subseteq> set n2"
    unfolding step_ok_def by blast
  have d: "set n1 \<inter> set n2 = {}"
  proof (rule ccontr)
    assume "set n1 \<inter> set n2 \<noteq> {}"
    then obtain x where x: "x \<in> set n1" "x \<in> set n2" by blast
    from x(2) n2(4) have "x \<in> S2 \<or> x \<notin> set (visitedUrls st1)" by blast
    then show False
    proof
      assume "x \<notin> set (visitedUrls st1)"
      with x(1) n1(3) show False by blast
    next
      assume s2: "x \<in> S2"
      with S2 have "x \<in> set (visitedUrls st)" by blast
      with x(1) n1(4) have "x \<in> S1" by blast
      with s2 disj show False by blast
    qed
  qed
  have f1: "fetched_urls (requests st2) = fetched_urls (requests st) @ (n1 @ n2)"
    using n1(1) n2(1) by simp
  have f2: "distinct (n1 @ n2)" using n1(2) n2(2) d by simp
  have f3: "set (n1 @ n2) \<subseteq> set (visitedUrls st2)" using n1(3) n2(3,5) by auto
  have f4: "set (n1 @ n2) \<subseteq> (S1 \<union> S2) \<union> (set (visitedUrls st2) - set (visitedUrls st))"
    using n1(4,5) n2(4,5) by auto
  have f5: "set (visitedUrls st) \<subseteq> set (visitedUrls st2)" using n1(5) n2(5) by blast
  have "page_url ` set r1 \<inter> page_url ` set r2 = {}" using n1(7) n2(7) d by blast
  then have f6: "distinct (map page_url (r1 @ r2))" using n1(6) n2(6) by simp
  have f7: "page_url ` set (r1 @ r2) \<subseteq> set (n1 @ n2)" using n1(7) n2(7) by auto
  show ?thesis unfolding step_ok_def
    by (rule exI [of _ "n1 @ n2"]) (intro conjI f1 f2 f3 f4 f5 f6 f7)
qed

lemma step_ok_visit:
  assumes "step_ok (insert u S) (visit u st) st' res" and "u \<notin> set (visitedUrls st)"
  shows "step_ok S st st' res"
proof -
  have v: "set (visitedUrls (visit u st)) = insert u (set (visitedUrls st))"
    and r: "requests (visit u st) = requests st"
    by (auto simp: visit_def set_add_def)
  from assms(1) obtain new where n: "fetched_urls (requests st') = fetched_urls (requests st) @ new"
    "distinct new" "set new \<subseteq> set (visitedUrls st')"
    "set new \<subseteq> insert u S \<union> (set (visitedUrls st') - insert u (set (visitedUrls st)))"
    "insert u (set (visitedUrls st)) \<subseteq> set (visitedUrls st')"
    "distinct (map page_url res)" "page_url ` set res \<subseteq> set new"
    unfolding step_ok_def v r by blast
  from n(4,5) assms(2) have "set new \<subseteq> S \<union> (set (visitedUrls st') - set (visitedUrls st))"
    by blast
  moreover from n(5) have "set (visitedUrls st) \<subseteq> set (visitedUrls st')" by blast
  ultimately show ?thesis unfolding step_ok_def
    using n(1,2,3,6,7) by (intro exI [of _ new]) simp
qed


lemma step_ok_fetch:
  assumes "u \<in> set (visitedUrls st)" and "res = [] \<or> (\<exists>p. res = [p] \<and> page_url p = u)"
  shows "step_ok {u} st (issue (FetchSinglePage u) st) res"
proof -
  have "fetched_urls (requests (issue (FetchSinglePage u) st)) = fetched_urls (requests st) @ [u]"
    by (simp add: issue_def fetched_urls_append)
  moreover have "visitedUrls (issue (FetchSinglePage u) st) = visitedUrls st"
    by (simp add: issue_def)
  moreover from assms(2) have "distinct (map page_url res)" "page_url ` set res \<subseteq> set [u]"
    by auto
  ultimately show ?thesis unfolding step_ok_def using assms(1)
    by (intro exI [of _ "[u]"]) simp
qed

lemma step_ok_visited:
  "step_ok S st st' res \<Longrightarrow> set (visitedUrls st) \<subseteq> set (visitedUrls st')"
  unfolding step_ok_def by blast

lemma walker_steps:
  "\<forall>res st'. u \<in> set (visitedUrls st) \<longrightarrow> explore w m d u st = (res, st') \<longrightarrow>
     step_ok {u} st st' res"
  "\<forall>res st'. set (entered pending) \<subseteq> set (visitedUrls st) \<longrightarrow> distinct (entered pending) \<longrightarrow>
     walk_links w m d url ls pending st = (res, st') \<longrightarrow>
     step_ok (set (entered pending)) st st' res"
  "\<forall>res st'. set (entered ps) \<subseteq> set (visitedUrls st) \<longrightarrow> distinct (entered ps) \<longrightarrow>
     run_group w m d ps st = (res, st') \<longrightarrow>
     step_ok (set (entered ps)) st st' res"
proof (induction w m d u st and w m d url ls pending st and w m d ps st
    rule: explore_walk_links_run_group.induct)
  case (1 w m d u st)
  show ?case
  proof (intro allI impI)
    fix res st'
    assume u: "u \<in> set (visitedUrls st)" and e: "explore w m d u st = (res, st')"
    let ?st1 = "issue (FetchSinglePage u) st"
    show "step_ok {u} st st' res"
    proof (cases "fetchSinglePage w u")
      case (Inl err)
      with e have "res = []" "st' = ?st1" by simp_all
      with step_ok_fetch [OF u, of "[]"] show ?thesis by simp
    next
      case (Inr b)
      let ?x = "sortedLinks_of (relatedLinks b)"
      let ?p = "\<lparr> page_url = u, page_title = Some (url_title w u),
                  page_content = mainContent b, page_links = ?x \<rparr>"
      show ?thesis
      proof (cases "d < m - 1")
        case False
        with Inr e have "res = [?p]" "st' = ?st1" by (simp_all add: Let_def)
        with step_ok_fetch [OF u, of "[?p]"] show ?thesis by simp
      next
        case True
        obtain rs st2 where wl: "walk_links w m d u ?x [] ?st1 = (rs, st2)"
          by (cases "walk_links w m d u ?x [] ?st1")
        with True Inr e have r: "res = [?p] @ rs" "st' = st2" by (simp_all add: Let_def)
        from "1.IH" [OF Inr refl refl True] wl
        have b: "step_ok {} ?st1 st2 rs" by simp
        from step_ok_fetch [OF u, of "[?p]"] have a: "step_ok {u} st ?st1 [?p]" by simp
        from step_ok_compose [OF a b] r show ?thesis by simp
      qed
    qed
  qed
next
  case (2 w m d url pending st)
  then show ?case by simp
next
  case (3 w m d url l ls pending st)
  show ?case
  proof (intro allI impI)
    fix res st'
    assume sub: "set (entered pending) \<subseteq> set (visitedUrls st)"
      and dis: "distinct (entered pending)"
      and wl: "walk_links w m d url (l # ls) pending st = (res, st')"
    show "step_ok (set (entered pending)) st st' res"
    proof (cases "resolveUrl w (link_url l) url")
      case None
      with wl have "walk_links w m d url ls pending st = (res, st')" by simp
      with "3.IH"(1) [OF None] sub dis show ?thesis by simp
    next
      case (Some x2)
      show ?thesis
      proof (cases "isSameDomain w x2 url \<and> x2 \<notin> set (visitedUrls st)")
        case False
        with Some wl have "walk_links w m d url ls pending st = (res, st')" by auto
        with "3.IH"(8) [OF Some False] sub dis show ?thesis by simp
      next
        case True
        then have new: "x2 \<notin> set (visitedUrls st)" by simp
        show ?thesis
        proof (cases "enter m (d + 1) x2 st")
          case None
          have en: "entered (pending @ [None]) = entered pending" by (simp add: entered_append)
          show ?thesis
          proof (cases "3 \<le> length (pending @ [None])")
            case long: True
            obtain x y where rg: "run_group w m (d + 1) (pending @ [None]) st = (x, y)"
              by (cases "run_group w m (d + 1) (pending @ [None]) st")
            obtain os st2 where w2: "walk_links w m d url ls [] y = (os, st2)"
              by (cases "walk_links w m d url ls [] y")
            from Some True None long rg w2 wl have r: "res = x @ os" "st' = st2" by auto
            from "3.IH"(2) [OF Some True None long] rg sub dis en
            have a: "step_ok (set (entered pending)) st y x" by simp
            from "3.IH"(3) [OF Some True None long rg [symmetric]] w2
            have b: "step_ok {} y st2 os" by simp
            from step_ok_compose [OF a b] r show ?thesis by simp
          next
            case short: False
            with Some True None wl
            have "walk_links w m d url ls (pending @ [None]) st = (res, st')" by auto
            with "3.IH"(4) [OF Some True None short] sub dis en show ?thesis by simp
          qed
        next
          case (Some st1)
          then have st1: "st1 = visit x2 st" by (auto simp: enter_def split: if_splits)
          have v1: "set (visitedUrls st1) = insert x2 (set (visitedUrls st))"
            unfolding st1 by (auto simp: visit_def set_add_def)
          have en: "entered (pending @ [Some x2]) = entered pending @ [x2]"
            by (simp add: entered_append)
          from sub v1 have sub1: "set (entered (pending @ [Some x2])) \<subseteq> set (visitedUrls st1)"
            unfolding en by auto
          from dis sub new have dis1: "distinct (entered (pending @ [Some x2]))"
            unfolding en by auto
          have "step_ok (insert x2 (set (entered pending))) (visit x2 st) st' res"
          proof (cases "3 \<le> length (pending @ [Some x2])")
            case long: True
            obtain x y where rg: "run_group w m (d + 1) (pending @ [Some x2]) st1 = (x, y)"
              by (cases "run_group w m (d + 1) (pending @ [Some x2]) st1")
            obtain os st2 where w2: "walk_links w m d url ls [] y = (os, st2)"
              by (cases "walk_links w m d url ls [] y")
            from \<open>resolveUrl w (link_url l) url = Some x2\<close> True Some long rg w2 wl
            have r: "res = x @ os" "st' = st2" by auto
            from "3.IH"(5) [OF \<open>resolveUrl w (link_url l) url = Some x2\<close> True Some long]
              rg sub1 dis1
            have a: "step_ok (set (entered (pending @ [Some x2]))) st1 y x" by simp
            from "3.IH"(6) [OF \<open>resolveUrl w (link_url l) url = Some x2\<close> True Some long
                rg [symmetric]] w2
            have b: "step_ok {} y st2 os" by simp
            from step_ok_compose [OF a b] r show ?thesis unfolding en st1 by simp
          next
            case short: False
            with \<open>resolveUrl w (link_url l) url = Some x2\<close> True Some wl
            have "walk_links w m d url ls (pending @ [Some x2]) st1 = (res, st')" by auto
            with "3.IH"(7) [OF \<open>resolveUrl w (link_url l) url = Some x2\<close> True Some short]
              sub1 dis1
            show ?thesis unfolding en st1 by simp
          qed
          then show ?thesis using new by (rule step_ok_visit)
        qed
      qed
    qed
  qed
next
  case (4 w m d st)
  show ?case by (simp add: step_ok_refl)
next
  case (5 w m d ps st)
  then show ?case by simp
next
  case (6 w m d u ps st)
  show ?case
  proof (intro allI impI)
    fix res st'
    assume sub: "set (entered (Some u # ps)) \<subseteq> set (visitedUrls st)"
      and dis: "distinct (entered (Some u # ps))"
      and rg: "run_group w m d (Some u # ps) st = (res, st')"
    obtain x y where ex: "explore w m d u st = (x, y)" by (cases "explore w m d u st")
    obtain os st2 where r2: "run_group w m d ps y = (os, st2)"
      by (cases "run_group w m d ps y")
    from ex r2 rg have r: "res = x @ os" "st' = st2" by simp_all
    from sub have u: "u \<in> set (visitedUrls st)" and subps: "set (entered ps) \<subseteq> set (visitedUrls st)"
      by simp_all
    from "6.IH"(1) u ex have a: "step_ok {u} st y x" by simp
    from step_ok_visited [OF a] subps have "set (entered ps) \<subseteq> set (visitedUrls y)" by blast
    with "6.IH"(2) [OF ex [symmetric]] dis r2
    have b: "step_ok (set (entered ps)) y st2 os" by simp
    from dis have "{u} \<inter> set (entered ps) = {}" by simp
    from step_ok_compose [OF a b subps this] r
    show "step_ok (set (entered (Some u # ps))) st st' res" by simp
  qed
qed

lemma recursive_walk_distinct:
  assumes "fetchDocContentRecursive w url m 0 cleared = (pages, st')"
  shows "distinct (map page_url pages) \<and> distinct (fetched_urls (requests st'))"
proof (cases "enter m 0 url cleared")
  case None
  with assms have "pages = []" "st' = cleared" by (simp_all add: fetchDocContentRecursive_def)
  then show ?thesis by (simp add: cleared_def)
next
  case (Some st1)
  then have st1: "st1 = visit url cleared" by (auto simp: enter_def split: if_splits)
  then have u: "url \<in> set (visitedUrls st1)" and r: "requests st1 = []"
    by (auto simp: visit_def set_add_def cleared_def)
  from Some assms have "explore w m 0 url st1 = (pages, st')"
    by (simp add: fetchDocContentRecursive_def)
  with walker_steps(1) u have "step_ok {url} st1 st' pages" by blast
  then show ?thesis unfolding step_ok_def r by auto
qed

section \<open>Properties of the relevance score\<close>

lemma foldl_bonus:
  "foldl (\<lambda>r word. if P word then r + 2 else r) (r0 :: rat) ws =
     r0 + 2 * of_nat (length (filter P ws))"
  by (induction ws arbitrary: r0) (simp_all add: algebra_simps)

lemma link_relevance_formula:
  "link_relevance doc (main_element doc) link =
     min (of_nat (length (anchor_text link)) / 10) 5 +
     (if in_main doc link then 5 else 0) +
     2 * of_nat (length (filter (includes_str (toLowerCase (anchor_text link))) informativeWords))"
  by (simp add: link_relevance_def Let_def foldl_bonus in_main_def split: option.splits)

lemma map_filter_if:
  "List.map_filter (\<lambda>x. if P x then None else Some (f x)) xs = map f (filter (\<lambda>x. \<not> P x) xs)"
  by (induction xs) (simp_all add: List.map_filter_simps)

lemma relatedLinks_formula:
  "relatedLinks (extractContent doc) =
     map (\<lambda>link. \<lparr> sl_url = href link, sl_text = trim (anchor_text link),
                   relevance =
                     min (of_nat (length (anchor_text link)) / 10) 5 +
                     (if in_main doc link then 5 else 0) +
                     2 * of_nat (length (filter (includes_str (toLowerCase (anchor_text link)))
                                   informativeWords)) \<rparr>)
       (filter (\<lambda>link. \<not> skipped_href (href link)) (anchors doc))"
  by (simp add: extractContent_def Let_def map_filter_if link_relevance_formula)

lemma includes_str_hd: "includes_str s w \<Longrightarrow> w \<noteq> [] \<Longrightarrow> hd w \<in> set s"
proof (induction s)
  case Nil then show ?case by simp
next
  case (Cons c cs)
  show ?case
  proof (cases "startsWith (c # cs) w")
    case True
    with Cons.prems(2) have "hd w = c" by (cases w) (simp_all add: startsWith_def)
    then show ?thesis by simp
  next
    case False
    with Cons show ?thesis by simp
  qed
qed

lemma lower_x: "toLowerCase (replicate n CHR ''x'') = replicate n CHR ''x''"
  by (simp add: toLowerCase_def lower_char_def)

lemma no_word_in_xs:
  "filter (includes_str (toLowerCase (replicate n CHR ''x''))) informativeWords = []"
proof -
  have "\<not> includes_str (replicate n CHR ''x'') w" if "w \<in> set informativeWords" for w
  proof
    assume "includes_str (replicate n CHR ''x'') w"
    moreover from that have "w \<noteq> []" and "hd w \<noteq> CHR ''x''" by (auto simp: informativeWords_def)
    ultimately show False using includes_str_hd [of "replicate n CHR ''x''" w] by auto
  qed
  then show ?thesis by (simp add: lower_x filter_empty_conv)
qed

section \<open>Evaluation of the example sites\<close>

lemma plain_text:
  assumes "\<forall>c \<in> set s. \<not> is_space c \<and> c \<noteq> CHR ''<''"
  shows "tagfree s" and "spaced s" and "trimmed s"
proof -
  from assms show "tagfree s" by (induction s) auto
  from assms show "spaced s" by (induction s rule: spaced.induct) auto
  from assms show "trimmed s" by (cases s) (auto simp: trimmed_def)
qed

lemma plain_replicate:
  assumes "\<not> is_space c" and "c \<noteq> CHR ''<''"
  shows "clean_html (replicate n c) = replicate n c"
    and "cleanText (replicate n c) = replicate n c"
    and "trim (replicate n c) = replicate n c"
proof -
  from assms have p: "\<forall>x \<in> set (replicate n c). \<not> is_space x \<and> x \<noteq> CHR ''<''" by auto
  note q = plain_text [OF p]
  from q show "clean_html (replicate n c) = replicate n c" by (rule clean_html_fixed)
  from q(2,3) show "cleanText (replicate n c) = replicate n c"
    unfolding cleanText_normal by (rule normal_fixed)
  from q(3) show "trim (replicate n c) = replicate n c" by (rule trim_id)
qed

lemmas plain_a = plain_replicate [of "CHR ''a''", simplified is_space_def, simplified]

lemmas plain_m = plain_replicate [of "CHR ''m''", simplified is_space_def, simplified]

lemma example_texts:
  "extractTextContent ''<h1>Docs</h1>'' = ''Docs''"
  "extractTextContent ''<p>Page</p>'' = ''Page''"
  by code_simp+

lemma example_trims:
  "trim ''/a'' = ''/a''" "trim ''/b'' = ''/b''" "trim ''/c'' = ''/c''"
  "trim ''/d'' = ''/d''" "trim ''/e'' = ''/e''"
  "trim ''A'' = ''A''" "trim ''B'' = ''B''" "trim ''C'' = ''C''" "trim ''D'' = ''D''"
  "trim ''E'' = ''E''" "trim ''X'' = ''X''" "trim ''B again'' = ''B again''"
  "trim ''http://other.test/x'' = ''http://other.test/x''"
  "trim ''Docs'' = ''Docs''" "trim ''Other'' = ''Other''"
  by (simp_all add: trim_def is_space_def)

lemmas run_simplified =
  callTool_simplified_def fetchContent_def fetchWithPuppeteer_def finally_close_def
  rendered_result_def page_script_def fetchSimpleContent_def extractLinks_def
  same_hostname_def skipped_href_def startsWith_def cleared_def visit_def set_add_def
  issue_def Let_def List.map_filter_simps example_texts example_trims

lemma docs_site_depth2:
  "callTool_simplified docs_site FetchSettlesFirst ''http://docs.test/'' 2 =
     ToolResult docs_site_result"
  by (simp add: run_simplified docs_site_def docs_site_result_def)

lemma docs_site_trace:
  "fetchContent docs_site ''http://docs.test/'' 2 cleared =
     (Inr docs_site_result,
      \<lparr> visitedUrls = [''http://docs.test/'', ''http://docs.test/a'', ''http://docs.test/c'',
                         ''http://docs.test/e''],
        requests =
          [(AxiosGet ''http://docs.test/'' \<lparr> timeout = 10000, user_agent = userAgent \<rparr>,
            [''http://docs.test/'']),
           (AxiosGet ''http://docs.test/a'' \<lparr> timeout = 5000, user_agent = userAgent \<rparr>,
            [''http://docs.test/'']),
           (AxiosGet ''http://docs.test/b'' \<lparr> timeout = 5000, user_agent = userAgent \<rparr>,
            [''http://docs.test/'', ''http://docs.test/a'']),
           (AxiosGet ''http://docs.test/c'' \<lparr> timeout = 5000, user_agent = userAgent \<rparr>,
            [''http://docs.test/'', ''http://docs.test/a'']),
           (AxiosGet ''http://docs.test/d'' \<lparr> timeout = 5000, user_agent = userAgent \<rparr>,
            [''http://docs.test/'', ''http://docs.test/a'', ''http://docs.test/c'']),
           (AxiosGet ''http://docs.test/e'' \<lparr> timeout = 5000, user_agent = userAgent \<rparr>,
            [''http://docs.test/'', ''http://docs.test/a'', ''http://docs.test/c''])] \<rparr>)"
  by (simp add: run_simplified docs_site_def docs_site_result_def)

lemma down_site_simplified:
  "fetchContent down_site ''http://docs.test/'' depth cleared =
     (Inr \<lparr> rootUrl = ''http://docs.test/'', explorationDepth = depth, pagesExplored = 1,
            content = [], error = Some ''no browser'' \<rparr>,
      \<lparr> visitedUrls = [''http://docs.test/''],
        requests =
          [(AxiosGet ''http://docs.test/'' \<lparr> timeout = 10000, user_agent = userAgent \<rparr>,
            [''http://docs.test/'']),
           (PuppeteerFetch ''http://docs.test/'', [''http://docs.test/''])] \<rparr>)"
  by (simp add: run_simplified docs_site_def down_site_def)

lemma five_links_script:
  "page_script five_links_doc =
     (''Docs'', [\<lparr> link_url = ''/b'', link_text = ''B'' \<rparr>, \<lparr> link_url = ''/d'', link_text = ''D'' \<rparr>,
                \<lparr> link_url = ''/a'', link_text = ''A'' \<rparr>, \<lparr> link_url = ''/c'', link_text = ''C'' \<rparr>,
                \<lparr> link_url = ''/e'', link_text = ''E'' \<rparr>])"
  by (simp add: page_script_def five_links_doc_def CONTENT_SELECTORS_def Let_def
      List.map_filter_simps skipped_href_def startsWith_def example_trims)

lemma rendered_site_depth2:
  "callTool_simplified rendered_site FetchSettlesFirst ''http://docs.test/'' 2 =
     ToolResult
       \<lparr> rootUrl = ''http://docs.test/'', explorationDepth = 2, pagesExplored = 2,
         content =
           [\<lparr> page_url = ''http://docs.test/'', page_title = None, page_content = ''Docs'',
              page_links =
                [\<lparr> link_url = ''http://docs.test/b'', link_text = ''B'' \<rparr>,
                 \<lparr> link_url = ''http://docs.test/d'', link_text = ''D'' \<rparr>,
                 \<lparr> link_url = ''http://docs.test/a'', link_text = ''A'' \<rparr>,
                 \<lparr> link_url = ''http://docs.test/c'', link_text = ''C'' \<rparr>,
                 \<lparr> link_url = ''http://docs.test/e'', link_text = ''E'' \<rparr>] \<rparr>,
            \<lparr> page_url = ''http://docs.test/a'', page_title = None, page_content = ''Page'',
              page_links = [] \<rparr>],
         error = None \<rparr>"
  by (simp add: callTool_simplified_def fetchContent_def fetchWithPuppeteer_def finally_close_def
      rendered_result_def five_links_script is_space_def trim_def fetchSimpleContent_def
      same_hostname_def startsWith_def cleared_def visit_def set_add_def
      issue_def Let_def List.map_filter_simps example_texts docs_site_def rendered_site_def)

lemma repeat_site_trace:
  "requests (snd (fetchContent repeat_site ''http://docs.test/'' 2 cleared)) =
     [(AxiosGet ''http://docs.test/'' \<lparr> timeout = 10000, user_agent = userAgent \<rparr>,
       [''http://docs.test/'']),
      (AxiosGet ''http://docs.test/b'' \<lparr> timeout = 5000, user_agent = userAgent \<rparr>,
       [''http://docs.test/'']),
      (AxiosGet ''http://docs.test/b'' \<lparr> timeout = 5000, user_agent = userAgent \<rparr>,
       [''http://docs.test/''])]"
  by (simp add: run_simplified docs_site_def repeat_site_def)


lemma empty_body_site_trace:
  "map fst (requests (snd (fetchContent empty_body_site ''http://docs.test/'' 1 cleared))) =
     [AxiosGet ''http://docs.test/'' \<lparr> timeout = 10000, user_agent = userAgent \<rparr>,
      PuppeteerFetch ''http://docs.test/'']"
  by (simp add: run_simplified docs_site_def empty_body_site_def)

lemma body_main_element:
  "main_element big_doc = Some \<lparr> node_id = 0, textContent = replicate 10001 CHR ''a'' \<rparr>"
  "main_element foreign_doc = Some \<lparr> node_id = 0, textContent = replicate 150 CHR ''a'' \<rparr>"
  by (simp_all add: main_element_def big_doc_def foreign_doc_def CONTENT_SELECTORS_def plain_a)

lemma main_main_element:
  "main_element three_links_doc = Some \<lparr> node_id = 1, textContent = replicate 300 CHR ''m'' \<rparr>"
  "main_element guide_doc = Some \<lparr> node_id = 1, textContent = replicate 300 CHR ''m'' \<rparr>"
  by (simp_all add: main_element_def three_links_doc_def guide_doc_def CONTENT_SELECTORS_def
      plain_m)

lemma outside_main:
  "in_main three_links_doc link = False" "in_main guide_doc link = False"
  unfolding in_main_def main_main_element
  by (simp_all add: three_links_doc_def guide_doc_def)

lemma big_doc_extracted:
  "extractContent big_doc = \<lparr> mainContent = replicate 10001 CHR ''a'', relatedLinks = [] \<rparr>"
  proof -
  have "anchors big_doc = []" by (simp add: big_doc_def)
  then show ?thesis
    by (simp add: extractContent_def body_main_element plain_a List.map_filter_simps)
qed

lemma big_site_page:
  "fetchSinglePage big_site ''http://docs.test/'' =
     Inr \<lparr> mainContent = replicate 10001 CHR ''a'', relatedLinks = [] \<rparr>"
proof -
  have "hasContent big_doc" by (simp add: hasContent_def big_doc_def plain_a)
  moreover have "isValidUrl big_site ''http://docs.test/''"
    by (simp add: isValidUrl_def big_site_def docs_site_def startsWith_def)
  moreover have "browse big_site ''http://docs.test/'' = Response 200 big_doc"
    by (simp add: big_site_def)
  ultimately show ?thesis
    by (simp add: fetchSinglePage_def big_doc_extracted plain_a)
qed






lemma guide_lower: "toLowerCase ''Guide guide'' = ''guide guide''"
  by code_simp

lemma guide_scores:
  "map relevance (relatedLinks (extractContent guide_doc)) = [31 / 10] \<and>
   claimed_relevance False ''Guide guide'' = 51 / 10"
proof -
  have a: "filter (\<lambda>link. \<not> skipped_href (href link)) (anchors guide_doc) = anchors guide_doc"
    by (simp add: guide_doc_def skipped_href_def startsWith_def)
  have b: "map anchor_text (anchors guide_doc) = [''Guide guide'']"
    by (simp add: guide_doc_def)
  have f: "filter (includes_str ''guide guide'') informativeWords = [''guide'']"
    by (simp add: informativeWords_def startsWith_def)
  have o: "map (occurrences ''guide guide'') informativeWords = [2, 0, 0, 0, 0, 0, 0, 0]"
    by (simp add: informativeWords_def startsWith_def)
  have "map relevance (relatedLinks (extractContent guide_doc)) =
          map (\<lambda>text. min (of_nat (length text) / 10) 5 +
                 2 * of_nat (length (filter (includes_str (toLowerCase text)) informativeWords)))
            (map anchor_text (anchors guide_doc))"
    unfolding relatedLinks_formula a by (simp add: outside_main comp_def)
  then have "map relevance (relatedLinks (extractContent guide_doc)) = [31 / 10]"
    unfolding b by (simp add: guide_lower f)
  moreover have "claimed_relevance False ''Guide guide'' = 51 / 10"
    by (simp add: claimed_relevance_def guide_lower o)
  ultimately show ?thesis by simp
qed

lemma begin_calls_example:
  "map fst (requests (foldl (\<lambda>st c. begin_call 2 c st) cleared
      [(0, ''http://docs.test/''), (1, ''http://docs.test/a''), (1, ''http://docs.test/a''),
       (1, ''http://docs.test/''), (2, ''http://docs.test/b'')])) =
     [FetchSinglePage ''http://docs.test/'', FetchSinglePage ''http://docs.test/a'']"
  by (simp add: begin_call_def enter_def cleared_def visit_def set_add_def issue_def)

lemma topic_lower: "toLowerCase ''Topic'' = ''topic''" "trim ''Topic'' = ''Topic''"
  by code_simp+

lemma links_doc_extracted:
  "extractContent (links_doc hrefs) =
     \<lparr> mainContent = replicate 150 CHR ''a'',
       relatedLinks = map (\<lambda>h. \<lparr> sl_url = h, sl_text = ''Topic'', relevance = 11 / 2 \<rparr>)
                        (filter (\<lambda>h. \<not> skipped_href h) hrefs) \<rparr>"
proof -
  have m: "main_element (links_doc hrefs) =
      Some \<lparr> node_id = 0, textContent = replicate 150 CHR ''a'' \<rparr>"
    by (simp add: main_element_def links_doc_def CONTENT_SELECTORS_def plain_a)
  have i: "\<And>link. in_main (links_doc hrefs) link"
    unfolding in_main_def m by (simp add: links_doc_def)
  have w: "filter (includes_str ''topic'') informativeWords = []"
    by (simp add: informativeWords_def startsWith_def)
  have a: "anchors (links_doc hrefs) =
      map (\<lambda>h. \<lparr> anchor_id = 1, href = h, anchor_text = ''Topic'' \<rparr>) hrefs"
    by (simp add: links_doc_def)
  have "relatedLinks (extractContent (links_doc hrefs)) =
      map (\<lambda>h. \<lparr> sl_url = h, sl_text = ''Topic'', relevance = 11 / 2 \<rparr>)
                        (filter (\<lambda>h. \<not> skipped_href h) hrefs)"
    unfolding relatedLinks_formula a
    by (simp add: i topic_lower w filter_map comp_def)
  moreover have "mainContent (extractContent (links_doc hrefs)) = replicate 150 CHR ''a''"
    by (simp add: extractContent_def m plain_a)
  ultimately show ?thesis by (cases "extractContent (links_doc hrefs)") simp
qed

lemma links_doc_page:
  "isValidUrl w url \<Longrightarrow> browse w url = Response 200 (links_doc hrefs) \<Longrightarrow>
     fetchSinglePage w url =
       Inr \<lparr> mainContent = replicate 150 CHR ''a'',
             relatedLinks = map (\<lambda>h. \<lparr> sl_url = h, sl_text = ''Topic'', relevance = 11 / 2 \<rparr>)
                              (filter (\<lambda>h. \<not> skipped_href h) hrefs) \<rparr>"
proof -
  have "hasContent (links_doc hrefs)" by (simp add: hasContent_def links_doc_def plain_a)
  then show "isValidUrl w url \<Longrightarrow> browse w url = Response 200 (links_doc hrefs) \<Longrightarrow> ?thesis"
    by (simp add: fetchSinglePage_def links_doc_extracted plain_a)
qed

lemma walk_site_pages:
  "fetchSinglePage walk_site ''http://docs.test/'' =
     Inr \<lparr> mainContent = replicate 150 CHR ''a'',
           relatedLinks = [\<lparr> sl_url = ''/a'', sl_text = ''Topic'', relevance = 11 / 2 \<rparr>,
                           \<lparr> sl_url = ''/b'', sl_text = ''Topic'', relevance = 11 / 2 \<rparr>] \<rparr>"
  "fetchSinglePage walk_site ''http://docs.test/a'' =
     Inr \<lparr> mainContent = replicate 150 CHR ''a'',
           relatedLinks = [\<lparr> sl_url = ''/'', sl_text = ''Topic'', relevance = 11 / 2 \<rparr>,
                           \<lparr> sl_url = ''/b'', sl_text = ''Topic'', relevance = 11 / 2 \<rparr>] \<rparr>"
  "fetchSinglePage walk_site ''http://docs.test/b'' =
     Inl (FetchFailed ''net::ERR_CONNECTION_REFUSED'')"
proof -
  have v: "isValidUrl walk_site ''http://docs.test/''" "isValidUrl walk_site ''http://docs.test/a''"
    "isValidUrl walk_site ''http://docs.test/b''"
    by (simp_all add: isValidUrl_def walk_site_def docs_site_def startsWith_def)
  have b: "browse walk_site ''http://docs.test/'' = Response 200 (links_doc [''/a'', ''/b''])"
    "browse walk_site ''http://docs.test/a'' = Response 200 (links_doc [''/'', ''/b''])"
    "browse walk_site ''http://docs.test/b'' = BrowseThrows (ErrorObject ''net::ERR_CONNECTION_REFUSED'')"
    by (simp_all add: walk_site_def)
  have s: "\<not> skipped_href ''/a''" "\<not> skipped_href ''/b''" "\<not> skipped_href ''/''"
    by (simp_all add: skipped_href_def startsWith_def)
  from links_doc_page [OF v(1) b(1)] s
  show "fetchSinglePage walk_site ''http://docs.test/'' =
     Inr \<lparr> mainContent = replicate 150 CHR ''a'',
           relatedLinks = [\<lparr> sl_url = ''/a'', sl_text = ''Topic'', relevance = 11 / 2 \<rparr>,
                           \<lparr> sl_url = ''/b'', sl_text = ''Topic'', relevance = 11 / 2 \<rparr>] \<rparr>"
    by simp
  from links_doc_page [OF v(2) b(2)] s
  show "fetchSinglePage walk_site ''http://docs.test/a'' =
     Inr \<lparr> mainContent = replicate 150 CHR ''a'',
           relatedLinks = [\<lparr> sl_url = ''/'', sl_text = ''Topic'', relevance = 11 / 2 \<rparr>,
                           \<lparr> sl_url = ''/b'', sl_text = ''Topic'', relevance = 11 / 2 \<rparr>] \<rparr>"
    by simp
  from v(3) b(3)
  show "fetchSinglePage walk_site ''http://docs.test/b'' =
     Inl (FetchFailed ''net::ERR_CONNECTION_REFUSED'')"
    by (simp add: fetchSinglePage_def)
qed

lemma walk_site_links:
  "sortedLinks_of [\<lparr> sl_url = x, sl_text = ''Topic'', relevance = 11 / 2 \<rparr>,
                   \<lparr> sl_url = y, sl_text = ''Topic'', relevance = 11 / 2 \<rparr>] =
     [\<lparr> link_url = x, link_text = ''Topic'' \<rparr>, \<lparr> link_url = y, link_text = ''Topic'' \<rparr>]"
  by (simp add: sortedLinks_of_def topic_lower navigation_labels_def)

lemma walk_site_resolve:
  "resolveUrl walk_site ''/a'' base = Some ''http://docs.test/a''"
  "resolveUrl walk_site ''/b'' base = Some ''http://docs.test/b''"
  "resolveUrl walk_site ''/'' base = Some ''http://docs.test/''"
  "isSameDomain walk_site ''http://docs.test/a'' ''http://docs.test/''"
  "isSameDomain walk_site ''http://docs.test/b'' ''http://docs.test/''"
  "isSameDomain walk_site ''http://docs.test/'' ''http://docs.test/a''"
  "isSameDomain walk_site ''http://docs.test/b'' ''http://docs.test/a''"
  "url_title walk_site u = []"
  by (simp_all add: resolveUrl_def isSameDomain_def same_hostname_def walk_site_def
      docs_site_def startsWith_def)

lemma walk_site_depth3:
  "fetchDocContentRecursive walk_site ''http://docs.test/'' 3 0 cleared =
     ([\<lparr> page_url = ''http://docs.test/'', page_title = Some [],
         page_content = replicate 150 CHR ''a'',
         page_links = [\<lparr> link_url = ''/a'', link_text = ''Topic'' \<rparr>,
                       \<lparr> link_url = ''/b'', link_text = ''Topic'' \<rparr>] \<rparr>,
       \<lparr> page_url = ''http://docs.test/a'', page_title = Some [],
         page_content = replicate 150 CHR ''a'',
         page_links = [\<lparr> link_url = ''/'', link_text = ''Topic'' \<rparr>,
                       \<lparr> link_url = ''/b'', link_text = ''Topic'' \<rparr>] \<rparr>],
      \<lparr> visitedUrls = [''http://docs.test/'', ''http://docs.test/a'', ''http://docs.test/b''],
        requests =
          [(FetchSinglePage ''http://docs.test/'',
            [''http://docs.test/'']),
           (FetchSinglePage ''http://docs.test/a'',
            [''http://docs.test/'', ''http://docs.test/a'', ''http://docs.test/b'']),
           (FetchSinglePage ''http://docs.test/b'',
            [''http://docs.test/'', ''http://docs.test/a'', ''http://docs.test/b''])] \<rparr>)"
  by (simp add: fetchDocContentRecursive_def enter_def cleared_def visit_def set_add_def
      issue_def walk_site_pages walk_site_links walk_site_resolve Let_def)

section \<open>Requests of the walker in any order\<close>

lemma accepted_body_iff:
  "accepted_body out = Some s \<longleftrightarrow> out = AxiosResponse 200 (TextBody s) \<and> s \<noteq> []"
  by (cases out rule: accepted_body.cases) auto

lemma begin_call_invariant:
  assumes "map fst (requests st) = map FetchSinglePage us" and "distinct us"
    and "set us \<subseteq> set (visitedUrls st)"
  shows "\<exists>vs. map fst (requests (begin_call m c st)) = map FetchSinglePage vs \<and> distinct vs \<and>
              set vs \<subseteq> set (visitedUrls (begin_call m c st))"
proof (cases "enter m (fst c) (snd c) st")
  case None
  with assms show ?thesis by (auto simp: begin_call_def)
next
  case (Some st1)
  then have new: "snd c \<notin> set (visitedUrls st)" and st1: "st1 = visit (snd c) st"
    by (auto simp: enter_def split: if_splits)
  from Some st1 have "map fst (requests (begin_call m c st)) = map FetchSinglePage (us @ [snd c])"
    and "set (visitedUrls (begin_call m c st)) = insert (snd c) (set (visitedUrls st))"
    using assms(1) by (auto simp: begin_call_def issue_def visit_def set_add_def)
  moreover from new assms(2,3) have "distinct (us @ [snd c])" by auto
  ultimately show ?thesis using assms(3) by (intro exI [of _ "us @ [snd c]"]) auto
qed

lemma begin_calls_invariant:
  assumes "map fst (requests st) = map FetchSinglePage us" and "distinct us"
    and "set us \<subseteq> set (visitedUrls st)"
  shows "\<exists>vs. map fst (requests (foldl (\<lambda>st c. begin_call m c st) st calls)) =
               map FetchSinglePage vs \<and> distinct vs"
  using assms
proof (induction calls arbitrary: st us)
  case Nil
  then show ?case by auto
next
  case (Cons c calls)
  from begin_call_invariant [OF Cons.prems] obtain vs
    where "map fst (requests (begin_call m c st)) = map FetchSinglePage vs" "distinct vs"
      "set vs \<subseteq> set (visitedUrls (begin_call m c st))" by blast
  from Cons.IH [OF this] show ?case by simp
qed

lemma begin_calls_distinct:
  "distinct (map fst (requests (foldl (\<lambda>st c. begin_call m c st) cleared calls)))"
proof -
  have "map fst (requests cleared) = map FetchSinglePage []" "distinct ([] :: string list)"
    "set [] \<subseteq> set (visitedUrls cleared)" by (simp_all add: cleared_def)
  from begin_calls_invariant [OF this] obtain vs
    where "map fst (requests (foldl (\<lambda>st c. begin_call m c st) cleared calls)) =
               map FetchSinglePage vs" "distinct vs" by blast
  then show ?thesis by (simp add: distinct_map inj_on_def)
qed

section \<open>Links that are not followed\<close>



section \<open>The text of a page\<close>

lemma rendered_root_content:
  assumes "fetchWithPuppeteer w url d st = (Inr r, st')"
  shows "\<exists>doc. render w (length (requests st)) url = Rendered doc \<and> content r \<noteq> [] \<and>
           page_content (hd (content r)) = truncate_text (rendered_text doc)"
proof (cases "render w (length (requests st)) url")
  case (LaunchFails e)
  with assms show ?thesis by (simp add: fetchWithPuppeteer_def Let_def)
next
  case (PageFails e)
  with assms show ?thesis
    by (simp add: fetchWithPuppeteer_def Let_def finally_close_def split: option.splits)
next
  case (Rendered doc)
  let ?st1 = "issue (PuppeteerFetch url) st"
  from Rendered assms have "rendered_result w url d doc ?st1 = (Inr r, st')"
    by (cases "rendered_result w url d doc ?st1")
       (simp add: fetchWithPuppeteer_def Let_def finally_close_def split: option.splits)
  then have "content r \<noteq> [] \<and>
      page_content (hd (content r)) = truncate_text (rendered_text doc)"
    by (auto simp: rendered_result_unfold Let_def rendered_text_def split: if_splits prod.splits)
  with Rendered show ?thesis by simp
qed

lemma fetchContent_root_content:
  assumes "fetchContent w url d cleared = (Inr r, st')" and "content r \<noteq> []"
  shows "case accepted_body (axios_get w 0 url \<lparr> timeout = 10000, user_agent = userAgent \<rparr>) of
           Some html \<Rightarrow> page_content (hd (content r)) = truncate_text (clean_html html)
         | None \<Rightarrow> (\<exists>doc. render w 1 url = Rendered doc \<and>
                      page_content (hd (content r)) = truncate_text (rendered_text doc))"
proof (cases "accepted_body (axios_get w 0 url \<lparr> timeout = 10000, user_agent = userAgent \<rparr>)")
  case (Some html)
  from fetchContent_trace [OF assms(1)] Some
  have "page_content (hd (content r)) = extractTextContent html"
    by (auto simp: cleared_def)
  with Some show ?thesis by (simp add: extractTextContent_alt)
next
  case None
  let ?st2 = "issue (AxiosGet url \<lparr> timeout = 10000, user_agent = userAgent \<rparr>) (visit url cleared)"
  obtain res1 st3 where p: "fetchWithPuppeteer w url d ?st2 = (res1, st3)"
    by (cases "fetchWithPuppeteer w url d ?st2")
  have l: "length (requests ?st2) = 1" by (simp add: issue_def visit_def cleared_def)
  from None p assms have "res1 = Inr r"
    by (cases res1) (auto simp: fetchContent_def Let_def cleared_def visit_def split: if_splits)
  with p rendered_root_content [of w url d ?st2 r st3] l None show ?thesis by auto
qed

lemma long_site_depth2:
  "callTool_simplified long_site FetchSettlesFirst ''http://docs.test/'' 2 =
     ToolResult
       \<lparr> rootUrl = ''http://docs.test/'', explorationDepth = 2, pagesExplored = 2,
         content =
           [\<lparr> page_url = ''http://docs.test/'', page_title = None,
              page_content = replicate 10000 CHR ''a'' @ ''... (content truncated)'',
              page_links = [\<lparr> link_url = ''http://docs.test/a'', link_text = ''A'' \<rparr>] \<rparr>,
            \<lparr> page_url = ''http://docs.test/a'', page_title = None,
              page_content = replicate 10000 CHR ''a'' @ ''... (content truncated)'',
              page_links = [] \<rparr>],
         error = None \<rparr>"
proof -
  have e: "extractTextContent (replicate 10001 CHR ''a'') =
      replicate 10000 CHR ''a'' @ ''... (content truncated)''"
    by (simp add: extractTextContent_alt plain_a truncate_text_def)
  have n: "replicate 10001 CHR ''a'' \<noteq> []" by simp
  show ?thesis
    by (simp add: callTool_simplified_def fetchContent_def fetchSimpleContent_def extractLinks_def
      same_hostname_def skipped_href_def startsWith_def cleared_def visit_def set_add_def
      issue_def Let_def List.map_filter_simps example_trims e
      docs_site_def long_site_def del: replicate_Suc replicate.simps)
qed

lemma big_doc_script: "page_script big_doc = (replicate 10001 CHR ''a'', [])"
  by (simp add: page_script_def big_doc_def CONTENT_SELECTORS_def Let_def
      List.map_filter_simps plain_a)

lemma collapse_plain_a: "collapse_whitespace (replicate n CHR ''a'') = replicate n CHR ''a''"
  by (rule collapse_whitespace_id) (rule plain_text, simp add: is_space_def)

lemma long_rendered_site_depth2:
  "callTool_simplified long_rendered_site FetchSettlesFirst ''http://docs.test/'' 2 =
     ToolResult
       \<lparr> rootUrl = ''http://docs.test/'', explorationDepth = 2, pagesExplored = 1,
         content =
           [\<lparr> page_url = ''http://docs.test/'', page_title = None,
              page_content = replicate 10000 CHR ''a'' @ ''... (content truncated)'',
              page_links = [] \<rparr>],
         error = None \<rparr>"
  by (simp add: callTool_simplified_def fetchContent_def fetchWithPuppeteer_def finally_close_def
      rendered_result_def big_doc_script collapse_plain_a plain_a
      cleared_def visit_def set_add_def issue_def Let_def List.map_filter_simps
      docs_site_def down_site_def long_rendered_site_def del: replicate_Suc replicate.simps)

lemma big_doc_text: "rendered_text big_doc = replicate 10001 CHR ''a''"
  by (simp add: rendered_text_def big_doc_script collapse_plain_a plain_a)

section \<open>Requests stay on the site\<close>
















section \<open>The children of the root\<close>

lemma fetch_failed_append: "fetch_failed w trace u \<Longrightarrow> fetch_failed w (trace @ rest) u"
  unfolding fetch_failed_def list_ex_iff
  by (auto simp: nth_append)

lemma fetch_failed_last:
  assumes "case accepted_body (axios_get w (length trace) u \<lparr> timeout = 5000, user_agent = userAgent \<rparr>) of
             None \<Rightarrow> True | Some s \<Rightarrow> extractTextContent s = []"
  shows "fetch_failed w (trace @ [(AxiosGet u \<lparr> timeout = 5000, user_agent = userAgent \<rparr>, v)]) u"
  unfolding fetch_failed_def list_ex_iff using assms
  by (auto intro!: bexI [of _ "length trace"])

lemma explore_children_covers:
  "explore_children w ls acc st = (res, st') \<Longrightarrow>
     (\<exists>new added. res = acc @ new \<and> requests st' = requests st @ added \<and>
        length new \<le> length ls \<and>
        (\<forall>p \<in> set new. page_url p \<in> link_url ` set ls) \<and>
        (\<forall>l \<in> set ls. link_url l \<in> set (visitedUrls st) \<or> link_url l \<in> page_url ` set new \<or>
                      fetch_failed w (requests st') (link_url l)))"
proof (induction ls arbitrary: acc st)
  case Nil then show ?case by simp
next
  case (Cons l ls)
  let ?cfg = "\<lparr> timeout = 5000, user_agent = userAgent \<rparr>"
  show ?case
  proof (cases "link_url l \<in> set (visitedUrls st)")
    case True
    with Cons.prems have "explore_children w ls acc st = (res, st')" by simp
    from Cons.IH [OF this] True show ?thesis by auto
  next
    case False
    obtain r st1 where f: "fetchSimpleContent w (link_url l) st = (r, st1)"
      by (cases "fetchSimpleContent w (link_url l) st")
    let ?e = "(AxiosGet (link_url l) ?cfg, visitedUrls st)"
    from f have rq: "requests st1 = requests st @ [?e]"
      and v1: "visitedUrls st1 = visitedUrls st"
      and r: "r = map_option extractTextContent
                    (accepted_body (axios_get w (length (requests st)) (link_url l) ?cfg))"
      by (auto simp: fetchSimpleContent_def Let_def issue_def)
    show ?thesis
    proof (cases "\<exists>c. r = Some c \<and> c \<noteq> []")
      case True
      then obtain c where c: "r = Some c" "c \<noteq> []" by blast
      let ?p = "\<lparr> page_url = link_url l, page_title = None, page_content = c, page_links = [] \<rparr>"
      from c False f Cons.prems
      have "explore_children w ls (acc @ [?p]) (visit (link_url l) st1) = (res, st')" by simp
      from Cons.IH [OF this] obtain new added where
        n: "res = (acc @ [?p]) @ new" "requests st' = requests (visit (link_url l) st1) @ added"
        "length new \<le> length ls"
        "\<forall>p \<in> set new. page_url p \<in> link_url ` set ls"
        "\<forall>l' \<in> set ls. link_url l' \<in> set (visitedUrls (visit (link_url l) st1)) \<or>
             link_url l' \<in> page_url ` set new \<or> fetch_failed w (requests st') (link_url l')"
        by blast
      have vs: "set (visitedUrls (visit (link_url l) st1)) = insert (link_url l) (set (visitedUrls st))"
        using v1 by (auto simp: visit_def set_add_def)
      have rv: "requests (visit (link_url l) st1) = requests st1" by (simp add: visit_def)
      from n(5) vs have cov: "\<forall>l' \<in> set (l # ls). link_url l' \<in> set (visitedUrls st) \<or>
             link_url l' \<in> page_url ` set (?p # new) \<or> fetch_failed w (requests st') (link_url l')"
        by auto
      from n(1,2,3,4) rq rv cov show ?thesis
        by (intro exI [of _ "?p # new"] exI [of _ "?e # added"]) auto
    next
      case no: False
      with False f Cons.prems have e: "explore_children w ls acc st1 = (res, st')"
        by (cases r) auto
      from Cons.IH [OF e] obtain new added where
        n: "res = acc @ new" "requests st' = requests st1 @ added"
        "length new \<le> length ls"
        "\<forall>p \<in> set new. page_url p \<in> link_url ` set ls"
        "\<forall>l' \<in> set ls. link_url l' \<in> set (visitedUrls st1) \<or>
             link_url l' \<in> page_url ` set new \<or> fetch_failed w (requests st') (link_url l')"
        by blast
      from no r have "case accepted_body (axios_get w (length (requests st)) (link_url l) ?cfg) of
             None \<Rightarrow> True | Some s \<Rightarrow> extractTextContent s = []"
        by (auto split: option.splits)
      from fetch_failed_last [OF this, of "visitedUrls st"] rq
      have "fetch_failed w (requests st1) (link_url l)" by simp
      with n(2) have "fetch_failed w (requests st') (link_url l)"
        by (simp add: fetch_failed_append)
      with n(5) v1 have cov: "\<forall>l' \<in> set (l # ls). link_url l' \<in> set (visitedUrls st) \<or>
             link_url l' \<in> page_url ` set new \<or> fetch_failed w (requests st') (link_url l')"
        by auto
      from n(1,2,3,4) rq cov show ?thesis
        by (intro exI [of _ new] exI [of _ "?e # added"]) auto
    qed
  qed
qed

lemma children_fromI:
  assumes e: "explore_children w ls [] st = (cs, st')" and v: "set (visitedUrls st) = {url}"
    and c: "content r = p0 # cs" and u: "page_url p0 = url"
  shows "children_from w r (requests st') ls"
proof -
  from explore_children_covers [OF e] obtain added where
    n: "length cs \<le> length ls"
    "\<forall>p \<in> set cs. page_url p \<in> link_url ` set ls"
    "\<forall>l \<in> set ls. link_url l \<in> set (visitedUrls st) \<or> link_url l \<in> page_url ` set cs \<or>
                      fetch_failed w (requests st') (link_url l)"
    by auto
  from n(3) v c u have "\<forall>l \<in> set ls. link_url l \<in> page_url ` set (content r) \<or>
      fetch_failed w (requests st') (link_url l)" by auto
  with n(1,2) c show ?thesis by (simp add: children_from_def list_all_iff)
qed

lemma fetchContent_children:
  assumes f: "fetchContent w url d cleared = (Inr r, st')" and e: "error r = None"
  shows "if d \<le> 1 then length (content r) = 1
         else (case accepted_body (axios_get w 0 url \<lparr> timeout = 10000, user_agent = userAgent \<rparr>) of
                 Some html \<Rightarrow> children_from w r (requests st') (take 5 (extractLinks w html url))
               | None \<Rightarrow> (\<exists>doc. render w 1 url = Rendered doc \<and>
                            children_from w r (requests st') (take 3 (rendered_links w url doc))))"
proof -
  let ?config = "\<lparr> timeout = 10000, user_agent = userAgent \<rparr>"
  let ?st2 = "issue (AxiosGet url ?config) (visit url cleared)"
  have v2: "set (visitedUrls ?st2) = {url}"
    by (simp add: issue_def visit_def cleared_def set_add_def)
  have m: "take (min k (length xs)) xs = take k xs" for k and xs :: "link list"
    by (cases "k \<le> length xs") (simp_all add: min_def)
  show ?thesis
  proof (cases "accepted_body (axios_get w 0 url ?config)")
    case (Some data)
    define root where "root = \<lparr> page_url = url, page_title = None,
        page_content = extractTextContent data, page_links = take 10 (extractLinks w data url) \<rparr>"
    show ?thesis
    proof (cases "d \<le> 1")
      case True
      with Some f have "content r = [root]"
        by (auto simp add: fetchContent_def Let_def cleared_def visit_def root_def)
      with True show ?thesis by simp
    next
      case False
      let ?ls = "take 5 (extractLinks w data url)"
      obtain cs st3 where e: "explore_children w ?ls [] ?st2 = (cs, st3)"
        by (cases "explore_children w ?ls [] ?st2")
      with False Some f have "content r = root # cs" "st' = st3"
        by (auto simp add: fetchContent_def Let_def cleared_def visit_def root_def m)
      with children_fromI [OF e v2, of r root] have "children_from w r (requests st') ?ls"
        by (simp add: root_def)
      with False Some show ?thesis by simp
    qed
  next
    case None
    let ?st3 = "issue (PuppeteerFetch url) ?st2"
    have v3: "set (visitedUrls ?st3) = {url}"
      by (simp add: issue_def visit_def cleared_def set_add_def)
    have l2: "length (requests ?st2) = 1" by (simp add: issue_def visit_def cleared_def)
    obtain res1 st4 where p: "fetchWithPuppeteer w url d ?st2 = (res1, st4)"
      by (cases "fetchWithPuppeteer w url d ?st2")
    from None p f e have st: "st' = st4" and res1: "res1 = Inr r"
      by (auto simp add: fetchContent_def Let_def cleared_def visit_def split: sum.splits if_splits)
    show ?thesis
    proof (cases "render w 1 url")
      case (LaunchFails x)
      with p res1 l2 show ?thesis by (auto simp: fetchWithPuppeteer_def Let_def)
    next
      case (PageFails x)
      with p res1 l2 show ?thesis
        by (auto simp: fetchWithPuppeteer_def Let_def finally_close_def split: option.splits)
    next
      case (Rendered doc)
      with p res1 l2 have r: "rendered_result w url d doc ?st3 = (Inr r, st4)"
        by (cases "rendered_result w url d doc ?st3")
           (auto simp: fetchWithPuppeteer_def Let_def finally_close_def split: option.splits)
      let ?links = "rendered_links w url doc"
      define root where "root = \<lparr> page_url = url, page_title = None,
                   page_content = truncate_text (trim (collapse_whitespace (fst (page_script doc)))),
                   page_links = take 10 ?links \<rparr>"
      show ?thesis
      proof (cases "d \<le> 1 \<or> ?links = []")
        case True
        with r have c: "content r = [root]"
          by (auto simp: rendered_result_unfold Let_def root_def)
        show ?thesis
        proof (cases "d \<le> 1")
          case True
          with c show ?thesis by simp
        next
          case False
          with True have "?links = []" by simp
          with c have "children_from w r (requests st') (take 3 ?links)"
            by (simp add: children_from_def)
          with False None Rendered show ?thesis by simp
        qed
      next
        case False
        obtain cs st6 where e: "explore_children w (take 3 ?links) [] ?st3 = (cs, st6)"
          by (cases "explore_children w (take 3 ?links) [] ?st3")
        with False r have "content r = root # cs" "st4 = st6"
          by (auto simp: rendered_result_unfold Let_def root_def m)
        with children_fromI [OF e v3, of r root] st
        have "children_from w r (requests st') (take 3 ?links)" by (simp add: root_def)
        with False None Rendered show ?thesis by simp
      qed
    qed
  qed
qed

lemma more_trims:
  "trim ''/f'' = ''/f''" "trim ''/g'' = ''/g''" "trim ''F'' = ''F''" "trim ''G'' = ''G''"
  by (simp_all add: trim_def is_space_def)

lemma seven_links_site_depth2:
  "callTool_simplified seven_links_site FetchSettlesFirst ''http://docs.test/'' 2 =
     ToolResult seven_links_result"
  by (simp add: run_simplified more_trims docs_site_def seven_links_site_def seven_links_result_def)

lemma docs_site_links:
  "extractLinks docs_site ''<h1>Docs</h1>'' ''http://docs.test/'' =
     [\<lparr> link_url = ''http://docs.test/a'', link_text = ''A'' \<rparr>,
      \<lparr> link_url = ''http://docs.test/b'', link_text = ''B'' \<rparr>,
      \<lparr> link_url = ''http://docs.test/c'', link_text = ''C'' \<rparr>,
      \<lparr> link_url = ''http://docs.test/d'', link_text = ''D'' \<rparr>,
      \<lparr> link_url = ''http://docs.test/e'', link_text = ''E'' \<rparr>]"
  by (simp add: extractLinks_def same_hostname_def skipped_href_def startsWith_def Let_def
      List.map_filter_simps example_trims docs_site_def)

lemma seven_links_site_links:
  "take 5 (extractLinks seven_links_site ''<h1>Docs</h1>'' ''http://docs.test/'') =
     [\<lparr> link_url = ''http://docs.test/a'', link_text = ''A'' \<rparr>,
      \<lparr> link_url = ''http://docs.test/b'', link_text = ''B'' \<rparr>,
      \<lparr> link_url = ''http://docs.test/c'', link_text = ''C'' \<rparr>,
      \<lparr> link_url = ''http://docs.test/d'', link_text = ''D'' \<rparr>,
      \<lparr> link_url = ''http://docs.test/e'', link_text = ''E'' \<rparr>]"
  by (simp add: extractLinks_def same_hostname_def skipped_href_def startsWith_def Let_def
      List.map_filter_simps example_trims more_trims docs_site_def seven_links_site_def)

section \<open>The time of a request\<close>
















section \<open>Claims\<close>

text \<open>
  C1. A root page that cannot be fetched is to end the request in an error response. It
  does not: on a site where every request fails, the recursive server answers with a
  result of no pages and no error, and the simplified server with a result that carries
  the error message beside one page explored and no content. The error responses the two
  handlers provide for are never reached, in the recursive server because
  \<^verbatim>\<open>fetchDocContentRecursive\<close> catches every exception, in the simplified server because the
  root URL is in the visited set before the test for an empty visited set is made.
\<close>

theorem unfetchable_root_is_a_success:
  "callTool_recursive down_site ''http://docs.test/'' 1 =
     ToolResult \<lparr> rootUrl = ''http://docs.test/'', explorationDepth = 1, pagesExplored = 0,
                  content = [], error = None \<rparr> \<and>
   callTool_simplified down_site FetchSettlesFirst ''http://docs.test/'' 1 =
     ToolResult \<lparr> rootUrl = ''http://docs.test/'', explorationDepth = 1, pagesExplored = 1,
                  content = [], error = Some ''no browser'' \<rparr>"
proof -
  have "fetchSinglePage down_site ''http://docs.test/'' = Inl (FetchFailed ''no browser'')"
    by (simp add: fetchSinglePage_def isValidUrl_def down_site_def docs_site_def startsWith_def)
  from root_failure_returns_empty [OF this]
  show ?thesis by (simp add: callTool_simplified_def down_site_simplified)
qed




text \<open>
  C3. For every request that the simplified server answers with a result without an
  error, \<open>pagesExplored\<close> is the number of entries of \<open>content\<close>: the root and the children
  whose fetch gave non-empty content. Every entry behind the root has non-empty content,
  extracted by the simple fetcher from an accepted response for its URL. With depth 1 the
  root is the only entry. Otherwise the children come from the first 5 links of the root on
  the lightweight path and from its first 3 links on the rendered path: every child is the
  page of one of these links, each of these links has its page in the result or a failed
  fetch in the log, and there are no more children than links. A root with 5 links of its
  own site of which 2 fail gives \<open>pagesExplored = 1 + 3\<close> on the lightweight path, and a root
  with 7 links that all load gives \<open>1 + 5\<close> (the witness). On the rendered path the first
  site gives \<open>pagesExplored = 2\<close> when the 2 failing links come first (the counterexample,
  which also shows the result with an error: one page explored, no content).
\<close>

theorem pagesExplored_counts_content:
  "callTool_simplified w first url depth = ToolResult r \<Longrightarrow> error r = None \<Longrightarrow>
     pagesExplored r = length (content r) \<and>
     (\<forall>p \<in> set (tl (content r)).
        page_content p \<noteq> [] \<and>
        (\<exists>n s. accepted_body (axios_get w n (page_url p)
                  \<lparr> timeout = 5000, user_agent = userAgent \<rparr>) = Some s \<and>
               page_content p = extractTextContent s)) \<and>
     (if depth \<le> 1 then length (content r) = 1
      else (case accepted_body (axios_get w 0 url \<lparr> timeout = 10000, user_agent = userAgent \<rparr>) of
              Some html \<Rightarrow>
                children_from w r (requests (snd (fetchContent w url depth cleared)))
                  (take 5 (extractLinks w html url))
            | None \<Rightarrow>
                (\<exists>doc. render w 1 url = Rendered doc \<and>
                   children_from w r (requests (snd (fetchContent w url depth cleared)))
                     (take 3 (rendered_links w url doc)))))"
proof -
  assume "callTool_simplified w first url depth = ToolResult r" and e: "error r = None"
  then obtain st' where f: "fetchContent w url depth cleared = (Inr r, st')"
    using callTool_simplified_result by blast
  from fetchContent_cases [OF f] e
  have "ok_result w url depth r" by (auto simp: failed_result_def)
  then have "pagesExplored r = length (content r) \<and>
     (\<forall>p \<in> set (tl (content r)).
        page_content p \<noteq> [] \<and>
        (\<exists>n s. accepted_body (axios_get w n (page_url p)
                  \<lparr> timeout = 5000, user_agent = userAgent \<rparr>) = Some s \<and>
               page_content p = extractTextContent s))"
    by (auto simp: ok_result_def child_of_def)
  moreover
  from f have f': "fetchContent w url depth cleared =
      (Inr r, snd (fetchContent w url depth cleared))" by simp
  from fetchContent_children [OF f' e]
  have "if depth \<le> 1 then length (content r) = 1
      else (case accepted_body (axios_get w 0 url \<lparr> timeout = 10000, user_agent = userAgent \<rparr>) of
              Some html \<Rightarrow>
                children_from w r (requests (snd (fetchContent w url depth cleared)))
                  (take 5 (extractLinks w html url))
            | None \<Rightarrow>
                (\<exists>doc. render w 1 url = Rendered doc \<and>
                   children_from w r (requests (snd (fetchContent w url depth cleared)))
                     (take 3 (rendered_links w url doc))))" .
  ultimately show ?thesis by simp
qed

theorem pagesExplored_counts_content_witness:
  "callTool_simplified docs_site FetchSettlesFirst ''http://docs.test/'' 2 =
     ToolResult docs_site_result \<and>
   error docs_site_result = None \<and>
   length (page_links (hd (content docs_site_result))) = 5 \<and>
   pagesExplored docs_site_result = 1 + 3 \<and>
   map page_url (content docs_site_result) =
     [''http://docs.test/'', ''http://docs.test/a'', ''http://docs.test/c'', ''http://docs.test/e''] \<and>
   children_from docs_site docs_site_result
     (requests (snd (fetchContent docs_site ''http://docs.test/'' 2 cleared)))
     (page_links (hd (content docs_site_result))) \<and>
   callTool_simplified seven_links_site FetchSettlesFirst ''http://docs.test/'' 2 =
     ToolResult seven_links_result \<and>
   length (page_links (hd (content seven_links_result))) = 7 \<and>
   pagesExplored seven_links_result = 1 + 5 \<and>
   children_from seven_links_site seven_links_result
     (requests (snd (fetchContent seven_links_site ''http://docs.test/'' 2 cleared)))
     (take 5 (page_links (hd (content seven_links_result))))"
proof -
  have e: "error docs_site_result = None" by (simp add: docs_site_result_def)
  have a: "accepted_body (axios_get docs_site 0 ''http://docs.test/''
             \<lparr> timeout = 10000, user_agent = userAgent \<rparr>) = Some ''<h1>Docs</h1>''"
    by (simp add: docs_site_def)
  have l: "take 5 (extractLinks docs_site ''<h1>Docs</h1>'' ''http://docs.test/'') =
      page_links (hd (content docs_site_result))"
    by (simp add: docs_site_links docs_site_result_def)
  from pagesExplored_counts_content [OF docs_site_depth2 e]
  have "pagesExplored docs_site_result = length (content docs_site_result) \<and>
     children_from docs_site docs_site_result
       (requests (snd (fetchContent docs_site ''http://docs.test/'' 2 cleared)))
       (page_links (hd (content docs_site_result)))"
    by (simp add: a l)
  moreover
  have e7: "error seven_links_result = None" by (simp add: seven_links_result_def)
  have a7: "accepted_body (axios_get seven_links_site 0 ''http://docs.test/''
             \<lparr> timeout = 10000, user_agent = userAgent \<rparr>) = Some ''<h1>Docs</h1>''"
    by (simp add: seven_links_site_def)
  have l7: "take 5 (extractLinks seven_links_site ''<h1>Docs</h1>'' ''http://docs.test/'') =
      take 5 (page_links (hd (content seven_links_result)))"
    by (simp add: seven_links_site_links seven_links_result_def)
  from pagesExplored_counts_content [OF seven_links_site_depth2 e7]
  have "pagesExplored seven_links_result = length (content seven_links_result) \<and>
     children_from seven_links_site seven_links_result
       (requests (snd (fetchContent seven_links_site ''http://docs.test/'' 2 cleared)))
       (take 5 (page_links (hd (content seven_links_result))))"
    by (simp add: a7 l7)
  ultimately show ?thesis
    using docs_site_depth2 seven_links_site_depth2
    by (simp add: docs_site_result_def seven_links_result_def)
qed

theorem pagesExplored_counterexample:
  "(\<exists>r. callTool_simplified down_site FetchSettlesFirst ''http://docs.test/'' 2 = ToolResult r \<and>
        pagesExplored r = 1 \<and> content r = [] \<and> pagesExplored r \<noteq> length (content r)) \<and>
   (\<exists>r. callTool_simplified rendered_site FetchSettlesFirst ''http://docs.test/'' 2 = ToolResult r \<and>
        error r = None \<and>
        map link_url (page_links (hd (content r))) =
          [''http://docs.test/b'', ''http://docs.test/d'', ''http://docs.test/a'',
           ''http://docs.test/c'', ''http://docs.test/e''] \<and>
        pagesExplored r = 2 \<and> pagesExplored r \<noteq> 1 + 3)"
proof
  show "\<exists>r. callTool_simplified down_site FetchSettlesFirst ''http://docs.test/'' 2 = ToolResult r \<and>
        pagesExplored r = 1 \<and> content r = [] \<and> pagesExplored r \<noteq> length (content r)"
    by (simp add: callTool_simplified_def down_site_simplified)
  show "\<exists>r. callTool_simplified rendered_site FetchSettlesFirst ''http://docs.test/'' 2 = ToolResult r \<and>
        error r = None \<and>
        map link_url (page_links (hd (content r))) =
          [''http://docs.test/b'', ''http://docs.test/d'', ''http://docs.test/a'',
           ''http://docs.test/c'', ''http://docs.test/e''] \<and>
        pagesExplored r = 2 \<and> pagesExplored r \<noteq> 1 + 3"
    by (simp add: rendered_site_depth2)
qed

text \<open>
  C4. No page URL appears twice in the content of a result, in either server. In the
  simplified server the root URL is in the visited set when its requests are made, and a
  child is requested only for a URL outside the visited set; a child URL is inserted after
  its fetch gave content, so a link that failed is requested again when the page repeats it
  (the counterexample). In the recursive walker a URL is inserted at the entry of the call,
  before its fetch starts: the pages fetched in a request are pairwise distinct, and so are
  the fetches started by any sequence of calls, in whatever order the branches run.
\<close>

theorem visited_never_refetched:
  "(fetchContent w url maxDepth st = (res, st') \<longrightarrow>
      (\<exists>r. res = Inr r \<and> distinct (map page_url (content r))) \<and>
      (\<forall>e \<in> set (drop (length (requests st)) (requests st')).
         root_request url e \<or> child_request e)) \<and>
   (fetchDocContentRecursive w url maxDepth 0 cleared = (pages, st'') \<longrightarrow>
      distinct (map page_url pages) \<and> distinct (fetched_urls (requests st''))) \<and>
   distinct (map fst (requests (foldl (\<lambda>st c. begin_call m c st) cleared calls)))"
proof (intro conjI impI)
  assume f: "fetchContent w url maxDepth st = (res, st')"
  from fetchContent_trace [OF f] obtain r added where
    r: "res = Inr r" "distinct (map page_url (content r))"
    and a: "\<forall>e \<in> set added. child_request e" and
    c: "(case accepted_body (axios_get w (length (requests st)) url
                \<lparr> timeout = 10000, user_agent = userAgent \<rparr>) of
              Some data \<Rightarrow>
                requests st' = requests st @
                  (AxiosGet url \<lparr> timeout = 10000, user_agent = userAgent \<rparr>,
                   visitedUrls (visit url st)) # added \<and>
                error r = None \<and> content r \<noteq> [] \<and>
                page_content (hd (content r)) = extractTextContent data
            | None \<Rightarrow>
                requests st' = requests st @
                  (AxiosGet url \<lparr> timeout = 10000, user_agent = userAgent \<rparr>,
                   visitedUrls (visit url st)) #
                  (PuppeteerFetch url, visitedUrls (visit url st)) # added)"
    by blast
  from r show "\<exists>r. res = Inr r \<and> distinct (map page_url (content r))" by simp
  have v: "url \<in> set (visitedUrls (visit url st))" by (auto simp: visit_def set_add_def)
  from c a v show "\<forall>e \<in> set (drop (length (requests st)) (requests st')).
         root_request url e \<or> child_request e"
    by (cases "accepted_body (axios_get w (length (requests st)) url
                 \<lparr> timeout = 10000, user_agent = userAgent \<rparr>)")
       (auto simp: root_request_def)
next
  assume "fetchDocContentRecursive w url maxDepth 0 cleared = (pages, st'')"
  then have "distinct (map page_url pages) \<and> distinct (fetched_urls (requests st''))"
    by (rule recursive_walk_distinct)
  then show "distinct (map page_url pages)" and "distinct (fetched_urls (requests st''))"
    by simp_all
next
  show "distinct (map fst (requests (foldl (\<lambda>st c. begin_call m c st) cleared calls)))"
    by (rule begin_calls_distinct)
qed

theorem visited_never_refetched_witness:
  "fst (fetchContent docs_site ''http://docs.test/'' 2 cleared) = Inr docs_site_result \<and>
   distinct (map page_url (content docs_site_result)) \<and>
   list_all (\<lambda>e. root_request ''http://docs.test/'' e \<or> child_request e)
     (requests (snd (fetchContent docs_site ''http://docs.test/'' 2 cleared))) \<and>
   map page_url (fst (fetchDocContentRecursive walk_site ''http://docs.test/'' 3 0 cleared)) =
     [''http://docs.test/'', ''http://docs.test/a''] \<and>
   fetched_urls (requests (snd (fetchDocContentRecursive walk_site ''http://docs.test/'' 3 0 cleared))) =
     [''http://docs.test/'', ''http://docs.test/a'', ''http://docs.test/b''] \<and>
   distinct (map fst (requests (foldl (\<lambda>st c. begin_call 2 c st) cleared
      [(0, ''http://docs.test/''), (1, ''http://docs.test/a''), (1, ''http://docs.test/a''),
       (1, ''http://docs.test/''), (2, ''http://docs.test/b'')])))"
proof -
  let ?calls = "[(0, ''http://docs.test/''), (1, ''http://docs.test/a''), (1, ''http://docs.test/a''),
       (1, ''http://docs.test/''), (2, ''http://docs.test/b'')]"
  let ?walk = "fetchDocContentRecursive walk_site ''http://docs.test/'' 3 0 cleared"
  have f: "fetchContent docs_site ''http://docs.test/'' 2 cleared =
     (Inr docs_site_result, snd (fetchContent docs_site ''http://docs.test/'' 2 cleared))"
    by (simp add: docs_site_trace)
  have g: "fst (fetchContent docs_site ''http://docs.test/'' 2 cleared) = Inr docs_site_result"
    by (simp add: docs_site_trace)
  have h: "fetchDocContentRecursive walk_site ''http://docs.test/'' 3 0 cleared = (fst ?walk, snd ?walk)"
    by simp
  have rq: "requests cleared = []" by (simp add: cleared_def)
  from visited_never_refetched [where w = docs_site and url = "''http://docs.test/''"
      and maxDepth = 2 and st = cleared and res = "Inr docs_site_result"
      and st' = "snd (fetchContent docs_site ''http://docs.test/'' 2 cleared)"
      and m = 2 and calls = ?calls] f
  have "distinct (map page_url (content docs_site_result)) \<and>
      (\<forall>e \<in> set (requests (snd (fetchContent docs_site ''http://docs.test/'' 2 cleared))).
         root_request ''http://docs.test/'' e \<or> child_request e) \<and>
      distinct (map fst (requests (foldl (\<lambda>st c. begin_call 2 c st) cleared ?calls)))"
    unfolding rq by simp
  moreover
  from visited_never_refetched [where w = walk_site and url = "''http://docs.test/''"
      and maxDepth = 3 and pages = "fst ?walk" and st'' = "snd ?walk"] h
  have "distinct (map page_url (fst ?walk)) \<and> distinct (fetched_urls (requests (snd ?walk)))"
    by blast
  moreover have "map page_url (fst ?walk) = [''http://docs.test/'', ''http://docs.test/a'']"
    "fetched_urls (requests (snd ?walk)) =
       [''http://docs.test/'', ''http://docs.test/a'', ''http://docs.test/b'']"
    by (simp_all add: walk_site_depth3)
  ultimately show ?thesis using g by (simp only: list_all_iff) simp
qed

theorem refetch_counterexample:
  "requests (snd (fetchContent repeat_site ''http://docs.test/'' 2 cleared)) =
     [(AxiosGet ''http://docs.test/'' \<lparr> timeout = 10000, user_agent = userAgent \<rparr>,
       [''http://docs.test/'']),
      (AxiosGet ''http://docs.test/b'' \<lparr> timeout = 5000, user_agent = userAgent \<rparr>,
       [''http://docs.test/'']),
      (AxiosGet ''http://docs.test/b'' \<lparr> timeout = 5000, user_agent = userAgent \<rparr>,
       [''http://docs.test/''])]"
  by (rule repeat_site_trace)




text \<open>
  C6. Every page content in a result of the simplified server is the cleaned text of the
  page when that has at most 10000 characters, and otherwise its first 10000 characters
  followed by the truncation marker. The cleaned text is that of the body axios received,
  for the root on the lightweight path and for every child, and that of the rendered
  document for the root on the rendered path. The content extractor of the recursive walker
  does not truncate: its page of 10001 characters is returned whole (the counterexample).
\<close>

theorem content_is_truncated:
  "callTool_simplified w first url depth = ToolResult r \<Longrightarrow> p \<in> set (content r) \<Longrightarrow>
     \<exists>t. page_content p =
           (if length t > 10000 then take 10000 t @ truncation_marker else t) \<and>
         (if page_url p = url
          then (case accepted_body (axios_get w 0 url \<lparr> timeout = 10000, user_agent = userAgent \<rparr>) of
                  Some html \<Rightarrow> t = clean_html html
                | None \<Rightarrow> (\<exists>doc. render w 1 url = Rendered doc \<and> t = rendered_text doc))
          else (\<exists>n html. accepted_body (axios_get w n (page_url p)
                            \<lparr> timeout = 5000, user_agent = userAgent \<rparr>) = Some html \<and>
                         t = clean_html html))"
proof -
  assume "callTool_simplified w first url depth = ToolResult r" and p: "p \<in> set (content r)"
  then obtain st' where f: "fetchContent w url depth cleared = (Inr r, st')"
    using callTool_simplified_result by blast
  from fetchContent_cases [OF f] p have "ok_result w url depth r"
    by (auto simp: failed_result_def)
  then obtain root children ls where c: "content r = root # children"
    and u: "page_url root = url"
    and ch: "\<forall>q \<in> set children. child_of w ls q"
    unfolding ok_result_def by blast
  from fetchContent_trace [OF f] have d: "distinct (map page_url (content r))" by auto
  have m: "truncate_text t = (if length t > 10000 then take 10000 t @ truncation_marker else t)"
    for t by (simp add: truncate_text_def truncation_marker_def)
  show ?thesis
  proof (cases "p = root")
    case True
    from c have "content r \<noteq> []" by simp
    from fetchContent_root_content [OF f this] c True u show ?thesis
      unfolding m by (auto split: option.splits)
  next
    case False
    with p c have pc: "p \<in> set children" by simp
    from d c have "page_url root \<notin> set (map page_url children)" by simp
    moreover from pc have "page_url p \<in> set (map page_url children)" by simp
    ultimately have "page_url p \<noteq> page_url root" by metis
    with u have "page_url p \<noteq> url" by simp
    moreover from pc ch have "child_of w ls p" by simp
    then obtain n s where "accepted_body (axios_get w n (page_url p)
          \<lparr> timeout = 5000, user_agent = userAgent \<rparr>) = Some s"
      and "page_content p = extractTextContent s" unfolding child_of_def by blast
    ultimately show ?thesis unfolding extractTextContent_alt m by auto
  qed
qed

theorem content_is_truncated_witness:
  "callTool_simplified long_site FetchSettlesFirst ''http://docs.test/'' 2 =
     ToolResult
       \<lparr> rootUrl = ''http://docs.test/'', explorationDepth = 2, pagesExplored = 2,
         content =
           [long_page ''http://docs.test/''
              [\<lparr> link_url = ''http://docs.test/a'', link_text = ''A'' \<rparr>],
            long_page ''http://docs.test/a'' []],
         error = None \<rparr> \<and>
   length (clean_html (replicate 10001 CHR ''a'')) = 10001 \<and>
   page_content (long_page ''http://docs.test/'' [\<lparr> link_url = ''http://docs.test/a'', link_text = ''A'' \<rparr>]) =
     take 10000 (clean_html (replicate 10001 CHR ''a'')) @ truncation_marker \<and>
   page_content (long_page ''http://docs.test/a'' []) =
     take 10000 (clean_html (replicate 10001 CHR ''a'')) @ truncation_marker \<and>
   callTool_simplified long_rendered_site FetchSettlesFirst ''http://docs.test/'' 2 =
     ToolResult
       \<lparr> rootUrl = ''http://docs.test/'', explorationDepth = 2, pagesExplored = 1,
         content = [long_page ''http://docs.test/'' []], error = None \<rparr> \<and>
   length (rendered_text big_doc) = 10001 \<and>
   page_content (long_page ''http://docs.test/'' []) =
     take 10000 (rendered_text big_doc) @ truncation_marker"
proof -
  let ?u = "''http://docs.test/''"
  let ?root = "long_page ?u [\<lparr> link_url = ''http://docs.test/a'', link_text = ''A'' \<rparr>]"
  let ?child = "long_page ''http://docs.test/a'' []"
  let ?r = "\<lparr> rootUrl = ?u, explorationDepth = 2, pagesExplored = 2,
         content = [?root, ?child], error = None \<rparr>"
  let ?q = "\<lparr> rootUrl = ?u, explorationDepth = 2, pagesExplored = 1,
         content = [long_page ?u []], error = None \<rparr>"
  have l: "callTool_simplified long_site FetchSettlesFirst ?u 2 = ToolResult ?r"
    using long_site_depth2 by (simp add: long_page_def)
  have k: "callTool_simplified long_rendered_site FetchSettlesFirst ?u 2 = ToolResult ?q"
    using long_rendered_site_depth2 by (simp add: long_page_def)
  have a: "accepted_body (axios_get long_site n x c) = Some (replicate 10001 CHR ''a'')" for n x c
    by (simp add: long_site_def)
  have b: "accepted_body (axios_get long_rendered_site 0 ?u
             \<lparr> timeout = 10000, user_agent = userAgent \<rparr>) = None"
    "render long_rendered_site (Suc 0) ?u = Rendered big_doc"
    by (simp_all add: long_rendered_site_def down_site_def docs_site_def)
  have u: "page_url ?root = ?u" "page_url ?child \<noteq> ?u" "page_url (long_page ?u []) = ?u"
    by (simp_all add: long_page_def)
  have n: "length (clean_html (replicate 10001 CHR ''a'')) = 10001"
    "length (rendered_text big_doc) = 10001"
    by (simp_all add: plain_a big_doc_text)
  have "?root \<in> set (content ?r)" by simp
  from content_is_truncated [OF l this] u(1) n(1)
  have 1: "page_content ?root = take 10000 (clean_html (replicate 10001 CHR ''a'')) @ truncation_marker"
    by (auto simp: a)
  have "?child \<in> set (content ?r)" by simp
  from content_is_truncated [OF l this] u(2) n(1)
  have 2: "page_content ?child = take 10000 (clean_html (replicate 10001 CHR ''a'')) @ truncation_marker"
    by (auto simp: a)
  have "long_page ?u [] \<in> set (content ?q)" by simp
  from content_is_truncated [OF k this] u(3) n(2)
  have 3: "page_content (long_page ?u []) = take 10000 (rendered_text big_doc) @ truncation_marker"
    by (auto simp: b)
  from l k n 1 2 3 show ?thesis by simp
qed

theorem untruncated_content_counterexample:
  "callTool_recursive big_site ''http://docs.test/'' 1 =
     ToolResult
       \<lparr> rootUrl = ''http://docs.test/'', explorationDepth = 1, pagesExplored = 1,
         content = [\<lparr> page_url = ''http://docs.test/'', page_title = Some [],
                      page_content = replicate 10001 CHR ''a'', page_links = [] \<rparr>],
         error = None \<rparr> \<and>
   length (replicate 10001 CHR ''a'') = 10001"
proof -
  have "sortedLinks_of [] = []" by (simp add: sortedLinks_of_def)
  moreover have "url_title big_site ''http://docs.test/'' = []"
    by (simp add: big_site_def docs_site_def)
  ultimately
  have "explore big_site 1 0 ''http://docs.test/'' (visit ''http://docs.test/'' cleared) =
     ([\<lparr> page_url = ''http://docs.test/'', page_title = Some [],
          page_content = replicate 10001 CHR ''a'', page_links = [] \<rparr>],
      issue (FetchSinglePage ''http://docs.test/'') (visit ''http://docs.test/'' cleared))"
    by (simp add: big_site_page Let_def)
  then show ?thesis
    by (simp add: callTool_recursive_def fetchDocContentRecursive_def enter_cleared)
qed

text \<open>
  C7. The links \<open>extractContent\<close> returns are the anchors with a usable href, in document
  order, each with the score \<open>min (length / 10) 5\<close> of its untrimmed text, plus 5 if the
  anchor lies in the selected main element, plus 2 for every informative word that occurs
  in the lower-cased text, once per word however often it occurs. Texts of 5, 50 and 500
  characters outside the main element and without informative words score 1/2, 5 and 5 (the
  witness). A text with the same word twice scores 2 for it, not 4 (the counterexample).
\<close>

theorem relevance_score:
  "relatedLinks (extractContent doc) =
     map (\<lambda>link. \<lparr> sl_url = href link, sl_text = trim (anchor_text link),
                   relevance =
                     min (of_nat (length (anchor_text link)) / 10) 5 +
                     (if in_main doc link then 5 else 0) +
                     2 * of_nat (length (filter (includes_str (toLowerCase (anchor_text link)))
                                   informativeWords)) \<rparr>)
       (filter (\<lambda>link. \<not> skipped_href (href link)) (anchors doc))"
  by (rule relatedLinks_formula)

theorem relevance_score_witness:
  "map relevance (relatedLinks (extractContent three_links_doc)) = [1 / 2, 5, 5]"
proof -
  note m = outside_main(1)
  have a: "filter (\<lambda>link. \<not> skipped_href (href link)) (anchors three_links_doc) =
             anchors three_links_doc"
    by (simp add: three_links_doc_def skipped_href_def startsWith_def)
  have b: "map anchor_text (anchors three_links_doc) =
             [replicate 5 CHR ''x'', replicate 50 CHR ''x'', replicate 500 CHR ''x'']"
    by (simp add: three_links_doc_def)
  have "map relevance (relatedLinks (extractContent three_links_doc)) =
          map (\<lambda>text. min (of_nat (length text) / 10) 5 +
                 2 * of_nat (length (filter (includes_str (toLowerCase text)) informativeWords)))
            (map anchor_text (anchors three_links_doc))"
    unfolding relevance_score [of three_links_doc] a by (simp add: m comp_def)
  then show ?thesis unfolding b by (simp add: no_word_in_xs)
qed

theorem relevance_per_occurrence_counterexample:
  "map relevance (relatedLinks (extractContent guide_doc)) = [31 / 10] \<and>
   claimed_relevance False ''Guide guide'' = 51 / 10"
  by (rule guide_scores)

text \<open>
  C8. \<^verbatim>\<open>fetchContent\<close> first requests the URL with axios, with a timeout of 10000 ms and the
  browser User-Agent. It takes the response if and only if the status is 200 and the body is
  a non-empty string: then no browser fetch is made and the root content is extracted from
  that body. In every other case, a thrown error, another status, a body that is not a
  string or an empty string, the next request is the browser fetch of the same URL.
\<close>

theorem lightweight_first:
  "fetchContent w url maxDepth cleared = (res, st') \<Longrightarrow>
     fst (hd (requests st')) = AxiosGet url \<lparr> timeout = 10000, user_agent = userAgent \<rparr> \<and>
     (case axios_get w 0 url \<lparr> timeout = 10000, user_agent = userAgent \<rparr> of
        AxiosResponse status (TextBody s) \<Rightarrow>
          if status = 200 \<and> s \<noteq> []
          then PuppeteerFetch url \<notin> fst ` set (requests st') \<and>
               (\<exists>r. res = Inr r \<and> error r = None \<and>
                    page_content (hd (content r)) = extractTextContent s)
          else fst (requests st' ! 1) = PuppeteerFetch url
      | AxiosResponse status OtherBody \<Rightarrow> fst (requests st' ! 1) = PuppeteerFetch url
      | AxiosThrows e \<Rightarrow> fst (requests st' ! 1) = PuppeteerFetch url)"
proof -
  let ?out = "axios_get w 0 url \<lparr> timeout = 10000, user_agent = userAgent \<rparr>"
  assume f: "fetchContent w url maxDepth cleared = (res, st')"
  have rq: "requests cleared = []" by (simp add: cleared_def)
  from fetchContent_trace [OF f] obtain r added where
    r: "res = Inr r" and a: "\<forall>e \<in> set added. child_request e" and
    c0: "(case accepted_body (axios_get w (length (requests cleared)) url \<lparr> timeout = 10000, user_agent = userAgent \<rparr>) of
              Some data \<Rightarrow>
                requests st' = requests cleared @
                  (AxiosGet url \<lparr> timeout = 10000, user_agent = userAgent \<rparr>, visitedUrls (visit url cleared)) # added \<and>
                error r = None \<and> content r \<noteq> [] \<and> page_content (hd (content r)) = extractTextContent data
            | None \<Rightarrow>
                requests st' = requests cleared @
                  (AxiosGet url \<lparr> timeout = 10000, user_agent = userAgent \<rparr>, visitedUrls (visit url cleared)) #
                  (PuppeteerFetch url, visitedUrls (visit url cleared)) # added)"
    by blast
  from c0 have
    c: "(case accepted_body ?out of
              Some data \<Rightarrow>
                requests st' =
                  (AxiosGet url \<lparr> timeout = 10000, user_agent = userAgent \<rparr>, visitedUrls (visit url cleared)) # added \<and>
                error r = None \<and> content r \<noteq> [] \<and> page_content (hd (content r)) = extractTextContent data
            | None \<Rightarrow>
                requests st' =
                  (AxiosGet url \<lparr> timeout = 10000, user_agent = userAgent \<rparr>, visitedUrls (visit url cleared)) #
                  (PuppeteerFetch url, visitedUrls (visit url cleared)) # added)"
    unfolding rq by (cases "accepted_body ?out") simp_all
  from a have np: "PuppeteerFetch url \<notin> fst ` set added" by (auto simp: child_request_def)
  show ?thesis
  proof (cases "accepted_body ?out")
    case None
    with c have "fst (hd (requests st')) = AxiosGet url \<lparr> timeout = 10000, user_agent = userAgent \<rparr>"
      and "fst (requests st' ! 1) = PuppeteerFetch url" by simp_all
    with None show ?thesis
      by (cases ?out rule: accepted_body.cases) (auto split: if_splits)
  next
    case (Some data)
    then have o: "?out = AxiosResponse 200 (TextBody data)" "data \<noteq> []"
      by (simp_all add: accepted_body_iff)
    from Some c np r show ?thesis unfolding o by auto
  qed
qed

theorem lightweight_first_witness:
  "fetchContent docs_site ''http://docs.test/'' 2 cleared =
     (Inr docs_site_result, snd (fetchContent docs_site ''http://docs.test/'' 2 cleared)) \<and>
   axios_get docs_site 0 ''http://docs.test/'' \<lparr> timeout = 10000, user_agent = userAgent \<rparr> =
     AxiosResponse 200 (TextBody ''<h1>Docs</h1>'') \<and>
   PuppeteerFetch ''http://docs.test/'' \<notin>
     fst ` set (requests (snd (fetchContent docs_site ''http://docs.test/'' 2 cleared))) \<and>
   page_content (hd (content docs_site_result)) = extractTextContent ''<h1>Docs</h1>''"
proof -
  have f: "fetchContent docs_site ''http://docs.test/'' 2 cleared =
     (Inr docs_site_result, snd (fetchContent docs_site ''http://docs.test/'' 2 cleared))"
    by (simp add: docs_site_trace)
  have o: "axios_get docs_site 0 ''http://docs.test/'' \<lparr> timeout = 10000, user_agent = userAgent \<rparr> =
     AxiosResponse 200 (TextBody ''<h1>Docs</h1>'')" by (simp add: docs_site_def)
  from lightweight_first [OF f] show ?thesis using f unfolding o by simp
qed

theorem empty_body_counterexample:
  "axios_get empty_body_site 0 ''http://docs.test/'' \<lparr> timeout = 10000, user_agent = userAgent \<rparr> =
     AxiosResponse 200 (TextBody []) \<and>
   map fst (requests (snd (fetchContent empty_body_site ''http://docs.test/'' 1 cleared))) =
     [AxiosGet ''http://docs.test/'' \<lparr> timeout = 10000, user_agent = userAgent \<rparr>,
      PuppeteerFetch ''http://docs.test/'']"
  using empty_body_site_trace by (simp add: empty_body_site_def)

text \<open>
  C9. Content normalization is idempotent: normalizing the output of the normalizer again
  gives the same text, for the tag-stripping normalizer of the simplified server
  (\<open>extractTextContent\<close>) and for the white-space cleaner of the content extractor
  (\<open>cleanText\<close>), on every input.
\<close>

theorem normalization_idempotent:
  "extractTextContent (extractTextContent html) = extractTextContent html \<and>
   cleanText (cleanText text) = cleanText text"
  by (simp add: extractTextContent_idem cleanText_idem)

text \<open>
  C10. In every result of the simplified server, whatever the depth, every entry of
  \<open>content\<close> behind the root has no links.
\<close>

theorem child_pages_have_no_links:
  "callTool_simplified w first url depth = ToolResult r \<Longrightarrow>
     \<forall>p \<in> set (tl (content r)). page_links p = []"
proof -
  assume "callTool_simplified w first url depth = ToolResult r"
  then obtain st' where "fetchContent w url depth cleared = (Inr r, st')"
    using callTool_simplified_result by blast
  from fetchContent_cases [OF this]
  have "ok_result w url depth r \<or> failed_result url depth st' r" by simp
  then show ?thesis
    by (auto simp: ok_result_def failed_result_def child_of_def)
qed

theorem child_pages_have_no_links_witness:
  "callTool_simplified docs_site FetchSettlesFirst ''http://docs.test/'' 2 =
     ToolResult docs_site_result \<and>
   length (tl (content docs_site_result)) = 3 \<and>
   list_all (\<lambda>p. page_links p = []) (tl (content docs_site_result))"
  using child_pages_have_no_links [OF docs_site_depth2] docs_site_depth2
  by (simp add: docs_site_result_def)

end
